theory Spec2Isabelle
  imports Complex_Main "HOL-Library.Word"
begin

unbundle bit_operations_syntax

section \<open>SWO trace core of swotrace.c: data model\<close>

text \<open>
  A shallow embedding of the packet queue, the trace-string list, the ITM decoder and the
  timeline configuration of \<^verbatim>\<open>source/swotrace.c\<close>.

  Conventions of the embedding:
  \<^item> bytes are \<open>8 word\<close>; a C buffer together with its length is the list of its bytes;
  \<^item> a \<^verbatim>\<open>double\<close> or \<^verbatim>\<open>float\<close> is a \<open>real\<close> (no rounding, no NaN);
  \<^item> the global variables of the file are fields of records that are passed explicitly;
  \<^item> a failed \<^verbatim>\<open>assert\<close> and a read outside the received packet are values of the
    type \<open>fault\<close>, returned on the left of a sum.
\<close>

type_synonym byte = "8 word"

subsection \<open>The packet queue\<close>


definition PACKET_NUM :: nat where
  "PACKET_NUM = 128"

text \<open>
  \<^verbatim>\<open>struct tagPACKET\<close>: \<open>data\<close> holds the \<^verbatim>\<open>length\<close> bytes that were received (the bytes
  of the 64-byte array behind them are stale and are not part of the model).
\<close>

record PACKET =
  data :: "byte list"
  pkt_timestamp :: real

text \<open>
  \<^verbatim>\<open>trace_queue\<close>, \<^verbatim>\<open>tracequeue_head\<close>, \<^verbatim>\<open>tracequeue_tail\<close> and
  \<^verbatim>\<open>tracequeue_overflow\<close>. The array is a function on slot numbers; only the slots
  below \<open>PACKET_NUM\<close> are ever addressed. The overflow counter is an \<^verbatim>\<open>int\<close> of C, here
  an integer without a bound.
\<close>

record ring =
  trace_queue :: "nat \<Rightarrow> PACKET"
  tracequeue_head :: nat
  tracequeue_tail :: nat
  tracequeue_overflow :: int

text \<open>
  The body that follows a successful read in \<^verbatim>\<open>trace_read\<close> (and, with the same text,
  in the WinUSB, libusbK and TCP readers): \<open>buffer\<close> is the list of the \<^verbatim>\<open>numread\<close>
  bytes read and \<open>ts\<close> the value of \<^verbatim>\<open>get_timestamp()\<close>.
\<close>

definition trace_enqueue :: "ring \<Rightarrow> byte list \<Rightarrow> real \<Rightarrow> ring" where
  "trace_enqueue r buffer ts =
     (if 0 < length buffer then
        (let next = (tracequeue_tail r + 1) mod PACKET_NUM in
         if next \<noteq> tracequeue_head r then
           r\<lparr>trace_queue := (trace_queue r)
                 (tracequeue_tail r := \<lparr>data = buffer, pkt_timestamp = ts\<rparr>),
             tracequeue_tail := next\<rparr>
         else r\<lparr>tracequeue_overflow := tracequeue_overflow r + 1\<rparr>)
      else r)"

text \<open>The reader thread, run on a sequence of reads.\<close>

fun trace_read :: "ring \<Rightarrow> (byte list \<times> real) list \<Rightarrow> ring" where
  "trace_read r [] = r"
| "trace_read r ((buffer, ts) # reads) = trace_read (trace_enqueue r buffer ts) reads"

text \<open>The frames that the consumer still has to take: the slots from head up to tail.\<close>

definition ring_count :: "ring \<Rightarrow> nat" where
  "ring_count r = (tracequeue_tail r + PACKET_NUM - tracequeue_head r) mod PACKET_NUM"

definition ring_contents :: "ring \<Rightarrow> PACKET list" where
  "ring_contents r =
     map (\<lambda>i. trace_queue r ((tracequeue_head r + i) mod PACKET_NUM)) [0..<ring_count r]"

definition mk_packet :: "byte list \<times> real \<Rightarrow> PACKET" where
  "mk_packet rd = \<lparr>data = fst rd, pkt_timestamp = snd rd\<rparr>"

text \<open>An empty queue, for the examples.\<close>

definition ring_init :: ring where
  "ring_init = \<lparr>trace_queue = (\<lambda>_. \<lparr>data = [], pkt_timestamp = 0\<rparr>),
     tracequeue_head = 0, tracequeue_tail = 0, tracequeue_overflow = 0\<rparr>"

subsection \<open>Channels and trace strings\<close>

text \<open>
  Modelled from the spec: \<^verbatim>\<open>NUM_CHANNELS\<close> is defined in \<^verbatim>\<open>swotrace.h\<close>, which is not
  part of the sources at hand; the specification fixes 32 channels (numbers 0 to 31).
\<close>

definition NUM_CHANNELS :: nat where
  "NUM_CHANNELS = 32"

text \<open>\<^verbatim>\<open>struct tagCHANNELINFO\<close>, without the colour (a type of the GUI toolkit).\<close>

record CHANNELINFO =
  enabled :: bool
  name :: string

text \<open>
  \<^verbatim>\<open>struct tagTRACESTRING\<close>. The list link \<^verbatim>\<open>next\<close> is the position in the list of
  trace strings. \<open>text_f\<close> holds the first \<^verbatim>\<open>length\<close> bytes of \<^verbatim>\<open>text\<close>, so the field
  \<^verbatim>\<open>length\<close> is the length of \<open>text_f\<close>; \<open>size_f\<close> is the field \<^verbatim>\<open>size\<close>. The field
  \<open>timefmt\<close> keeps what \<^verbatim>\<open>sprintf\<close> is asked to print: the relative time stamp and the
  number of decimals.
\<close>

record TRACESTRING =
  text_f :: "byte list"
  timestamp :: real
  timefmt :: "real \<times> nat"
  size_f :: nat
  channel :: nat
  flags :: "16 word"

definition TRACESTRING_MAXLENGTH :: nat where
  "TRACESTRING_MAXLENGTH = 256"

definition TRACESTRING_INITSIZE :: nat where
  "TRACESTRING_INITSIZE = 32"

text \<open>What can go wrong beyond the error paths of the code itself.\<close>

datatype fault = AssertFailed | OutOfBounds

subsection \<open>Searching the trace strings by time stamp\<close>

text \<open>
  \<^verbatim>\<open>tracestring_findtimestamp\<close>: the \<^verbatim>\<open>for\<close> loop walks the list from
  \<^verbatim>\<open>tracestring_root.next\<close> while the time stamp of the item is below the argument.
\<close>

fun findtimestamp_loop :: "TRACESTRING list \<Rightarrow> real \<Rightarrow> int \<Rightarrow> int" where
  "findtimestamp_loop [] ts line = line"
| "findtimestamp_loop (item # rest) ts line =
     (if timestamp item < ts then findtimestamp_loop rest ts (line + 1) else line)"

definition tracestring_findtimestamp :: "TRACESTRING list \<Rightarrow> real \<Rightarrow> int" where
  "tracestring_findtimestamp strings ts = findtimestamp_loop strings ts 0 - 1"

text \<open>A trace string with a given text, channel and time stamp, for the examples.\<close>

definition mk_string :: "byte list \<Rightarrow> nat \<Rightarrow> real \<Rightarrow> TRACESTRING" where
  "mk_string txt chan ts =
     \<lparr>text_f = txt, timestamp = ts, timefmt = (0, 3), size_f = TRACESTRING_INITSIZE,
      channel = chan, flags = 0\<rparr>"

subsection \<open>Searching the trace strings for a text\<close>

text \<open>
  \<^verbatim>\<open>toupper\<close> of the C library in the "C" locale: only the letters a to z change.
\<close>

definition toupper :: "byte \<Rightarrow> byte" where
  "toupper c = (if 0x61 \<le> c \<and> c \<le> 0x7A then c - 0x20 else c)"

text \<open>
  \<^verbatim>\<open>memicmp\<close>: the difference of the first pair of bytes that differ after \<^verbatim>\<open>toupper\<close>,
  0 when \<open>count\<close> bytes agree. The two lists are the memory from the two pointers on;
  \<open>None\<close> is a read behind the end of one of them.
\<close>

fun memicmp :: "byte list \<Rightarrow> byte list \<Rightarrow> nat \<Rightarrow> int option" where
  "memicmp p1 p2 0 = Some 0"
| "memicmp (a # p1) (b # p2) (Suc count) =
     (let diff = int (unat (toupper a)) - int (unat (toupper b)) in
      if diff = 0 then memicmp p1 p2 count else Some diff)"
| "memicmp p1 p2 (Suc count) = None"

text \<open>
  The search text is a C string: \<open>pat\<close> is the list of its bytes before the terminating
  zero, and \<^verbatim>\<open>text[0]\<close> of an empty string is that zero.
\<close>

definition first_char :: "byte list \<Rightarrow> byte" where
  "first_char pat = (case pat of [] \<Rightarrow> 0 | c # _ \<Rightarrow> c)"

text \<open>
  The innermost loop of \<^verbatim>\<open>tracestring_find\<close>: advance \<open>idx\<close> to the next byte of the
  line that equals the first byte of the search text, ignoring case.
\<close>

function skip_to :: "byte list \<Rightarrow> byte \<Rightarrow> nat \<Rightarrow> nat" where
  "skip_to ltext c idx =
     (if idx < length ltext \<and> toupper (ltext ! idx) \<noteq> toupper c
      then skip_to ltext c (idx + 1) else idx)"
  by pat_completeness auto
termination
  by (relation "measure (\<lambda>(ltext, c, idx). length ltext - idx)") auto

declare skip_to.simps [simp del]

lemma skip_to_ge: "idx \<le> skip_to ltext c idx"
proof (induction ltext c idx rule: skip_to.induct)
  case (1 ltext c idx)
  show ?case
  proof (cases "idx < length ltext \<and> toupper (ltext ! idx) \<noteq> toupper c")
    case True
    then have "skip_to ltext c idx = skip_to ltext c (idx + 1)" by (subst skip_to.simps) simp
    moreover have "idx + 1 \<le> skip_to ltext c (idx + 1)" using 1 True by simp
    ultimately show ?thesis by simp
  next
    case False
    then have "skip_to ltext c idx = idx" by (subst skip_to.simps) auto
    then show ?thesis by simp
  qed
qed

text \<open>
  The loop over one line, \<^verbatim>\<open>while (idx < item->length)\<close>, returning the value of
  \<open>idx\<close> with which the loop is left.
\<close>

function find_in_line :: "byte list \<Rightarrow> byte list \<Rightarrow> nat \<Rightarrow> fault + nat" where
  "find_in_line ltext pat idx =
     (if idx < length ltext then
        (let idx1 = skip_to ltext (first_char pat) idx in
         if idx1 + length pat > length ltext then Inr idx1
         else (case memicmp (drop idx1 ltext) pat (length pat) of
                 None \<Rightarrow> Inl OutOfBounds
               | Some d \<Rightarrow> if d = 0 then Inr idx1 else find_in_line ltext pat (idx1 + 1)))
      else Inr idx)"
  by pat_completeness auto
termination
proof (relation "measure (\<lambda>(ltext, pat, idx). length ltext - idx)", goal_cases)
  case 1
  show ?case by simp
next
  case (2 ltext pat idx idx1 d)
  then show ?case using skip_to_ge [of idx ltext "first_char pat"] by simp
qed

declare find_in_line.simps [simp del]

text \<open>
  The first loop of \<^verbatim>\<open>tracestring_find\<close> walks \<open>item\<close> towards line \<open>cur_mark\<close>. A
  pointer into the linked list is the list from that item on; \<^verbatim>\<open>NULL\<close> is \<open>[]\<close>.
\<close>

fun find_start :: "TRACESTRING list \<Rightarrow> int \<Rightarrow> int \<Rightarrow> TRACESTRING list \<times> int" where
  "find_start [] line cur_mark = ([], line)"
| "find_start (item # rest) line cur_mark =
     (if line < cur_mark then find_start rest (line + 1) cur_mark else (item # rest, line))"

text \<open>
  The search loop. It is left by \<^verbatim>\<open>return line\<close>, or with -1 when its condition fails;
  \<open>None\<close> stands for a loop that is never left. \<open>first\<close> is \<^verbatim>\<open>tracestring_root.next\<close>.
\<close>

partial_function (option) find_loop ::
  "TRACESTRING list \<Rightarrow> byte list \<Rightarrow> int \<Rightarrow> int \<Rightarrow> int \<Rightarrow> TRACESTRING list
     \<Rightarrow> (fault + int) option" where
  "find_loop first pat cur_mark curline line item =
     (if (line \<noteq> cur_mark \<or> curline < 0) \<and> item \<noteq> [] then
        (case find_in_line (text_f (hd item)) pat 0 of
           Inl f \<Rightarrow> Some (Inl f)
         | Inr idx \<Rightarrow>
             if int idx + int (length pat) \<le> int (length (text_f (hd item))) then Some (Inr line)
             else if tl item = [] then find_loop first pat cur_mark cur_mark 0 first
             else find_loop first pat cur_mark cur_mark (line + 1) (tl item))
      else Some (Inr (- 1)))"

declare find_loop.simps [code]

definition tracestring_find :: "TRACESTRING list \<Rightarrow> byte list \<Rightarrow> int \<Rightarrow> (fault + int) option" where
  "tracestring_find strings pat curline =
     (if \<not> (curline \<ge> 0 \<or> curline = - 1) then Some (Inl AssertFailed)
      else
        (let cur_mark = curline + 1;
             (item, line) = find_start strings 0 cur_mark;
             (item, line) = (if item = [] \<or> curline < 0 then (strings, 0)
                             else (tl item, line + 1))
         in find_loop strings pat cur_mark curline line item))"

text \<open>
  What a search from the first line on should find, in the words of the specification: a
  line holds the text when the text stands at some position of the line, ignoring case;
  the search returns the number of the first such line, and -1 when there is none.
\<close>

definition match_at :: "byte list \<Rightarrow> byte list \<Rightarrow> nat \<Rightarrow> bool" where
  "match_at ltext pat i =
     (i + length pat \<le> length ltext
      \<and> map toupper (take (length pat) (drop i ltext)) = map toupper pat)"

definition line_has :: "TRACESTRING \<Rightarrow> byte list \<Rightarrow> bool" where
  "line_has item pat = (\<exists>i \<le> length (text_f item). match_at (text_f item) pat i)"

fun first_match :: "TRACESTRING list \<Rightarrow> byte list \<Rightarrow> int \<Rightarrow> int" where
  "first_match [] pat line = - 1"
| "first_match (item # rest) pat line =
     (if line_has item pat then line else first_match rest pat (line + 1))"

subsection \<open>The collaborators of the decoder\<close>

text \<open>
  Modelled from the spec: the CTF decoder (\<^verbatim>\<open>decodectf.h\<close>, \<^verbatim>\<open>parsetsdl.h\<close>) is not part of
  the sources at hand. The specification gives its interface: \<^verbatim>\<open>stream_isactive\<close>,
  \<^verbatim>\<open>ctf_decode\<close>, which returns the number of messages it produced, and a queue of
  decoded messages read with \<^verbatim>\<open>msgstack_peek\<close> and shortened with \<^verbatim>\<open>msgstack_pop\<close>;
  \<^verbatim>\<open>ctf_decode_reset\<close> resets the state of the decoder. The queue is a list of
  messages, the rest of the state of the CTF decoder is of an arbitrary type \<open>'c\<close>, and
  the functions are parameters of the model.
\<close>

record ctf_msg =
  streamid :: "16 word"
  tstamp :: real
  message :: "byte list"

record 'c ctf_state =
  msgstack :: "ctf_msg list"
  ctf_decoder :: 'c

text \<open>
  The collaborators: the three functions of the CTF decoder, and the C library's \<^verbatim>\<open>malloc\<close>
  as an oracle: \<open>malloc_ok n\<close> tells whether the call of \<^verbatim>\<open>malloc\<close> that follows \<open>n\<close>
  earlier calls returns memory.
\<close>

record 'c collab =
  stream_isactive :: "nat \<Rightarrow> bool"
  ctf_decode :: "'c ctf_state \<Rightarrow> byte list \<Rightarrow> nat \<Rightarrow> int \<times> 'c ctf_state"
  ctf_decode_reset :: "'c ctf_state \<Rightarrow> 'c ctf_state"
  malloc_ok :: "nat \<Rightarrow> bool"

subsection \<open>The state of the decoder\<close>

text \<open>
  The global variables that \<^verbatim>\<open>tracestring_add\<close> and \<^verbatim>\<open>tracestring_process\<close> read and
  write. \<open>tracestrings\<close> is the linked list from \<^verbatim>\<open>tracestring_root.next\<close> on, and
  \<^verbatim>\<open>tracestring_tail\<close> is its last item (\<^verbatim>\<open>NULL\<close> when the list is empty). \<open>itm_cache\<close>
  holds the first \<^verbatim>\<open>itm_cachefilled\<close> bytes of the array \<^verbatim>\<open>itm_cache\<close>. \<open>mallocs\<close> counts
  the calls of \<^verbatim>\<open>malloc\<close>.
\<close>

record 'c decoder =
  channels :: "nat \<Rightarrow> CHANNELINFO"
  tracestrings :: "TRACESTRING list"
  itm_cache :: "byte list"
  itm_datasize :: nat
  itm_datasz_auto :: bool
  itm_packet_errors :: "32 word"
  ctf :: "'c ctf_state"
  mallocs :: nat

definition malloc :: "'c collab \<Rightarrow> 'c decoder \<Rightarrow> bool \<times> 'c decoder" where
  "malloc env st = (malloc_ok env (mallocs st), st\<lparr>mallocs := mallocs st + 1\<rparr>)"

subsection \<open>Adding trace text: \<^verbatim>\<open>tracestring_add\<close>\<close>

definition is_newline :: "byte \<Rightarrow> bool" where
  "is_newline b = (b = 0x0D \<or> b = 0x0A)"

text \<open>\<^verbatim>\<open>flags |= 0x01\<close>\<close>

definition seal :: "TRACESTRING \<Rightarrow> TRACESTRING" where
  "seal item = item\<lparr>flags := flags item OR 1\<rparr>"

text \<open>Writing through \<^verbatim>\<open>tracestring_tail\<close>: the last item of the list is replaced.\<close>

definition set_tail :: "TRACESTRING \<Rightarrow> 'c decoder \<Rightarrow> 'c decoder" where
  "set_tail item st = st\<lparr>tracestrings := butlast (tracestrings st) @ [item]\<rparr>"

text \<open>
  The relative time stamp of a new item: relative to the first item of the list, or 0
  when the list is empty.
\<close>

definition tstamp_relative :: "TRACESTRING list \<Rightarrow> real \<Rightarrow> real" where
  "tstamp_relative strings ts = (case strings of [] \<Rightarrow> 0 | r # _ \<Rightarrow> ts - timestamp r)"

text \<open>
  Plain text mode, the branch "create a new string" behind the test for a leading newline:
  two calls of \<^verbatim>\<open>malloc\<close>, for the item and for its text of 32 bytes; when either fails
  the byte is lost.
\<close>

definition new_string :: "'c collab \<Rightarrow> nat \<Rightarrow> real \<Rightarrow> 'c decoder \<Rightarrow> byte \<Rightarrow> 'c decoder" where
  "new_string env chan ts st b =
     (let (ok1, st1) = malloc env st in
      if ok1 then
        (let (ok2, st2) = malloc env st1 in
         if ok2 then
           st2\<lparr>tracestrings := tracestrings st2 @
             [\<lparr>text_f = [b], timestamp = ts,
               timefmt = (tstamp_relative (tracestrings st2) ts, 3),
               size_f = TRACESTRING_INITSIZE, channel = chan mod 256, flags = 0\<rparr>]\<rparr>
         else st2)
      else st1)"

text \<open>
  Plain text mode, the branch "append text to the current string": the buffer is doubled
  when it is full (\<^verbatim>\<open>size\<close> is an \<^verbatim>\<open>unsigned short\<close>), and the byte is stored when
  there is room.
\<close>

definition append_tail :: "'c collab \<Rightarrow> 'c decoder \<Rightarrow> byte \<Rightarrow> 'c decoder" where
  "append_tail env st b =
     (let tail = last (tracestrings st);
          (tail1, st1) =
            (if length (text_f tail) \<ge> size_f tail then
               (let (ok, st') = malloc env st in
                if ok then (tail\<lparr>size_f := (size_f tail * 2) mod 65536\<rparr>, st') else (tail, st'))
             else (tail, st));
          tail2 = (if length (text_f tail1) < size_f tail1
                   then tail1\<lparr>text_f := text_f tail1 @ [b]\<rparr> else tail1)
      in set_tail tail2 st1)"

text \<open>One round of the \<^verbatim>\<open>for\<close> loop of the plain text mode, for the byte \<open>b\<close>.\<close>

definition add_plain_byte :: "'c collab \<Rightarrow> nat \<Rightarrow> real \<Rightarrow> 'c decoder \<Rightarrow> byte \<Rightarrow> 'c decoder" where
  "add_plain_byte env chan ts st b =
     (if tracestrings st \<noteq> [] then
        (let tail = last (tracestrings st) in
         if is_newline b then set_tail (seal tail) st
         else
           (let tail1 = (if channel tail \<noteq> chan then seal tail
                         else if length (text_f tail) \<ge> TRACESTRING_MAXLENGTH then seal tail
                         else tail);
                tail2 = (if ts - timestamp tail1 > 0.1 then seal tail1 else tail1);
                st1 = set_tail tail2 st
            in if flags tail2 AND 1 = 0 then append_tail env st1 b
               else new_string env chan ts st1 b))
      else if is_newline b then st
      else new_string env chan ts st b)"

text \<open>
  \<^verbatim>\<open>while (length > 0 && buffer[length - 1] == '\0') length--;\<close> as a function of the
  buffer and the current value of \<^verbatim>\<open>length\<close>.
\<close>

fun strip_length :: "byte list \<Rightarrow> nat \<Rightarrow> nat" where
  "strip_length buffer 0 = 0"
| "strip_length buffer (Suc n) = (if buffer ! n = 0 then strip_length buffer n else Suc n)"

definition add_plain :: "'c collab \<Rightarrow> nat \<Rightarrow> real \<Rightarrow> 'c decoder \<Rightarrow> byte list \<Rightarrow> 'c decoder" where
  "add_plain env chan ts st buffer =
     foldl (add_plain_byte env chan ts) st (take (strip_length buffer (length buffer)) buffer)"

text \<open>
  CTF mode, the loop over the decoded messages. \<open>ts\<close> is the variable \<^verbatim>\<open>timestamp\<close>, which
  a message with a time stamp of its own overwrites. The text buffer has
  \<^verbatim>\<open>(unsigned short)(strlen(message)) + 1\<close> bytes, again as an \<^verbatim>\<open>unsigned short\<close>;
  \<^verbatim>\<open>strcpy\<close> writes behind it when the message is too long for that.
\<close>

fun msg_loop :: "'c collab \<Rightarrow> 'c decoder \<Rightarrow> real \<Rightarrow> ctf_msg list \<Rightarrow> fault + 'c decoder" where
  "msg_loop env st ts [] = Inr (st\<lparr>ctf := (ctf st)\<lparr>msgstack := []\<rparr>\<rparr>)"
| "msg_loop env st ts (m # ms) =
     (let (ok1, st1) = malloc env st in
      if ok1 then
        (let len = length (message m) mod 65536;
             sz = (len + 1) mod 65536;
             (ok2, st2) = malloc env st1 in
         if ok2 then
           (if length (message m) + 1 > sz then Inl OutOfBounds
            else
              (let ts' = (if tstamp m > 0.001 then tstamp m else ts);
                   item = \<lparr>text_f = message m, timestamp = ts',
                           timefmt = (tstamp_relative (tracestrings st2) ts',
                                      if tstamp m > 0.001 then 6 else 3),
                           size_f = sz, channel = unat (streamid m) mod 256, flags = 0\<rparr>
               in msg_loop env (st2\<lparr>tracestrings := tracestrings st2 @ [item]\<rparr>) ts' ms))
         else msg_loop env st2 ts ms)
      else msg_loop env st1 ts ms)"

text \<open>
  \<^verbatim>\<open>tracestring_add\<close>. The buffer and its length are the list \<open>buffer\<close>; the assertions
  on the channel and on the length are the first test.
\<close>

definition tracestring_add ::
  "'c collab \<Rightarrow> 'c decoder \<Rightarrow> nat \<Rightarrow> byte list \<Rightarrow> real \<Rightarrow> fault + 'c decoder" where
  "tracestring_add env st chan buffer ts =
     (if \<not> chan < NUM_CHANNELS \<or> \<not> 0 < length buffer then Inl AssertFailed
      else if \<not> enabled (channels st chan) then Inr st
      else if stream_isactive env chan then
        (let (count, c') = ctf_decode env (ctf st) buffer chan;
             st1 = st\<lparr>ctf := c'\<rparr>
         in if count > 0 then msg_loop env st1 ts (msgstack c') else Inr st1)
      else Inr (add_plain env chan ts st buffer))"

text \<open>\<^verbatim>\<open>tracestring_clear\<close>\<close>

definition tracestring_clear :: "'c decoder \<Rightarrow> 'c decoder" where
  "tracestring_clear st = st\<lparr>tracestrings := []\<rparr>"



text \<open>
  For the examples: collaborators without an active CTF stream and with a \<^verbatim>\<open>malloc\<close>
  that always returns memory, and the state of the decoder at the start of the program,
  with the channels 0 and 1 enabled.
\<close>

definition env0 :: "unit collab" where
  "env0 = \<lparr>stream_isactive = (\<lambda>_. False), ctf_decode = (\<lambda>c _ _. (0, c)),
            ctf_decode_reset = (\<lambda>c. c), malloc_ok = (\<lambda>_. True)\<rparr>"

definition st0 :: "unit decoder" where
  "st0 = \<lparr>channels = (\<lambda>i. \<lparr>enabled = (i < 2), name = (if i = 0 then ''A'' else ''B'')\<rparr>),
           tracestrings = [], itm_cache = [], itm_datasize = 1, itm_datasz_auto = False,
           itm_packet_errors = 0, ctf = \<lparr>msgstack = [], ctf_decoder = ()\<rparr>, mallocs = 0\<rparr>"

subsection \<open>Decoding ITM packets: \<^verbatim>\<open>tracestring_process\<close>\<close>

text \<open>The three macros on the header byte of an ITM packet.\<close>

definition ITM_VALIDHDR :: "byte \<Rightarrow> bool" where
  "ITM_VALIDHDR b = ((b AND 0x07) \<ge> 1 \<and> (b AND 0x07) \<le> 3)"

definition ITM_CHANNEL :: "byte \<Rightarrow> nat" where
  "ITM_CHANNEL b = unat (drop_bit 3 b AND 0x1f)"

definition ITM_LENGTH :: "byte \<Rightarrow> nat" where
  "ITM_LENGTH b = (if b AND 0x07 = 3 then 4 else unat (b AND 0x07))"

text \<open>
  \<^verbatim>\<open>ctf_decode_reset(); itm_packet_errors += 1; goto skip_packet;\<close> The counter is an
  \<^verbatim>\<open>unsigned\<close> and wraps around.
\<close>

definition itm_skip :: "'c collab \<Rightarrow> 'c decoder \<Rightarrow> 'c decoder" where
  "itm_skip env st =
     st\<lparr>ctf := ctf_decode_reset env (ctf st), itm_packet_errors := itm_packet_errors st + 1\<rparr>"

text \<open>
  The test \<^verbatim>\<open>if (len > itm_datasize)\<close>, which stands twice in the function: \<open>None\<close> is
  the way to \<^verbatim>\<open>skip_packet\<close>.
\<close>

definition check_datasize :: "'c decoder \<Rightarrow> nat \<Rightarrow> 'c decoder option" where
  "check_datasize st len =
     (if len > itm_datasize st then
        (if itm_datasz_auto st then Some (st\<lparr>itm_datasize := len\<rparr>) else None)
      else Some st)"

text \<open>
  The end of the work on a packet: the text collected in \<^verbatim>\<open>buffer\<close> is added, and the
  packet counts when there was text. The result is the state and the increment of
  \<^verbatim>\<open>count\<close>.
\<close>

definition itm_flush ::
  "'c collab \<Rightarrow> real \<Rightarrow> 'c decoder \<Rightarrow> nat \<Rightarrow> byte list \<Rightarrow> fault + 'c decoder \<times> int" where
  "itm_flush env ts st chan buffer =
     (if chan < NUM_CHANNELS \<and> 0 < length buffer then
        (case tracestring_add env st chan buffer ts of
           Inl f \<Rightarrow> Inl f
         | Inr st' \<Rightarrow> Inr (st', 1))
      else Inr (st, 0))"

text \<open>
  "If the channel changes in the middle of a packet, add a string and restart": the call
  of \<^verbatim>\<open>tracestring_add\<close> of that branch.
\<close>

definition chan_switch ::
  "'c collab \<Rightarrow> real \<Rightarrow> 'c decoder \<Rightarrow> nat \<Rightarrow> byte list \<Rightarrow> byte \<Rightarrow> fault + 'c decoder" where
  "chan_switch env ts st chan buffer b =
     (if chan \<noteq> ITM_CHANNEL b \<and> chan < NUM_CHANNELS \<and> 0 < length buffer
      then tracestring_add env st chan buffer ts else Inr st)"

text \<open>
  The loop \<^verbatim>\<open>while (pktlen > 0)\<close> with the statement that follows it. \<open>pktdata\<close> is the
  rest of the packet, from the pointer \<^verbatim>\<open>pktdata\<close> on, of length \<^verbatim>\<open>pktlen\<close>; \<open>buffer\<close> holds
  the first \<^verbatim>\<open>buflen\<close> bytes of \<^verbatim>\<open>buffer\<close> (an array of \<open>PACKET_SIZE\<close> bytes in the code, a list
  without a bound here); \<open>ts\<close> is the time stamp of the packet.
\<close>

function itm_loop ::
  "'c collab \<Rightarrow> real \<Rightarrow> 'c decoder \<Rightarrow> nat \<Rightarrow> byte list \<Rightarrow> byte list
     \<Rightarrow> fault + 'c decoder \<times> int" where
  "itm_loop env ts st chan buffer pktdata =
     (if pktdata = [] then itm_flush env ts st chan buffer
      else if hd pktdata = 0x17 then itm_loop env ts st chan buffer (drop 5 pktdata)
      else if \<not> ITM_VALIDHDR (hd pktdata) then Inr (itm_skip env st, 0)
      else
        (case chan_switch env ts st chan buffer (hd pktdata) of
           Inl f \<Rightarrow> Inl f
         | Inr st1 \<Rightarrow>
             (let chan1 = ITM_CHANNEL (hd pktdata);
                  buffer1 = (if chan \<noteq> ITM_CHANNEL (hd pktdata) then [] else buffer);
                  len = ITM_LENGTH (hd pktdata)
              in if length pktdata < len + 1
                 then itm_flush env ts (st1\<lparr>itm_cache := pktdata\<rparr>) chan1 buffer1
                 else
                   (case check_datasize st1 len of
                      None \<Rightarrow> Inr (itm_skip env st1, 0)
                    | Some st2 \<Rightarrow>
                        itm_loop env ts st2 chan1 (buffer1 @ take len (tl pktdata))
                          (drop (len + 1) pktdata)))))"
  by pat_completeness auto
termination
  by (relation "measure (\<lambda>(env, ts, st, chan, buffer, pktdata). length pktdata)") auto

declare itm_loop.simps [simp del]

text \<open>
  The work on one packet of the queue when decoding is enabled, from the declaration of
  \<^verbatim>\<open>pktdata\<close> to the label \<^verbatim>\<open>skip_packet\<close>. When the cache is filled, its first byte is
  the header of a packet whose data continues in this packet of the queue; the code
  copies \<^verbatim>\<open>skip\<close> bytes without looking at \<^verbatim>\<open>pktlen\<close>, which is a read behind the data
  received when the packet is shorter.
\<close>

definition process_packet ::
  "'c collab \<Rightarrow> 'c decoder \<Rightarrow> PACKET \<Rightarrow> fault + 'c decoder \<times> int" where
  "process_packet env st pkt =
     (let pktdata = data pkt; ts = pkt_timestamp pkt in
      if 0 < length (itm_cache st) then
        (let chan = ITM_CHANNEL (hd (itm_cache st));
             len = ITM_LENGTH (hd (itm_cache st))
         in case check_datasize st len of
              None \<Rightarrow> Inr (itm_skip env st, 0)
            | Some st1 \<Rightarrow>
                if \<not> length (itm_cache st1) \<le> 4 then Inl AssertFailed
                else if \<not> length (itm_cache st1) - 1 < len then Inl AssertFailed
                else
                  (let buffer = tl (itm_cache st1);
                       skip = len - (length (itm_cache st1) - 1)
                   in if length pktdata < skip then Inl OutOfBounds
                      else itm_loop env ts (st1\<lparr>itm_cache := []\<rparr>) chan
                             (buffer @ take skip pktdata) (drop skip pktdata)))
      else if \<not> 0 < length pktdata then Inl AssertFailed
      else itm_loop env ts st (ITM_CHANNEL (hd pktdata)) [] pktdata)"

text \<open>
  The loop of \<^verbatim>\<open>tracestring_process\<close> over the queue. \<open>None\<close> stands for a loop that is
  never left (head and tail are always below \<open>PACKET_NUM\<close> in the program, and then the
  loop is left, see below).
\<close>

partial_function (option) process_loop ::
  "'c collab \<Rightarrow> bool \<Rightarrow> int \<Rightarrow> ring \<Rightarrow> 'c decoder \<Rightarrow> (fault + int \<times> ring \<times> 'c decoder) option" where
  "process_loop env en count r st =
     (if tracequeue_head r \<noteq> tracequeue_tail r then
        (if en then
           (case process_packet env st (trace_queue r (tracequeue_head r)) of
              Inl f \<Rightarrow> Some (Inl f)
            | Inr (st', c) \<Rightarrow>
                process_loop env en (count + c)
                  (r\<lparr>tracequeue_head := (tracequeue_head r + 1) mod PACKET_NUM\<rparr>) st')
         else process_loop env en count
                (r\<lparr>tracequeue_head := (tracequeue_head r + 1) mod PACKET_NUM\<rparr>) st)
      else Some (Inr (count, r, st)))"

declare process_loop.simps [code]

definition tracestring_process ::
  "'c collab \<Rightarrow> bool \<Rightarrow> ring \<Rightarrow> 'c decoder \<Rightarrow> (fault + int \<times> ring \<times> 'c decoder) option" where
  "tracestring_process env en r st =
     (case process_loop env en 0 r st of
        None \<Rightarrow> None
      | Some (Inl f) \<Rightarrow> Some (Inl f)
      | Some (Inr (count, r', st')) \<Rightarrow>
          Some (Inr (count, if \<not> en then r'\<lparr>tracequeue_overflow := 0\<rparr> else r', st')))"

text \<open>
  The packets of the queue decoded one after the other, first in first out, as the loop
  does when decoding is enabled: the state after the last packet and the number of
  packets that added text.
\<close>

fun decode_frames ::
  "'c collab \<Rightarrow> 'c decoder \<Rightarrow> int \<Rightarrow> PACKET list \<Rightarrow> fault + 'c decoder \<times> int" where
  "decode_frames env st count [] = Inr (st, count)"
| "decode_frames env st count (pkt # pkts) =
     (case process_packet env st pkt of
        Inl f \<Rightarrow> Inl f
      | Inr (st', c) \<Rightarrow> decode_frames env st' (count + c) pkts)"

text \<open>The channel and the text of each trace string: what a trace line shows.\<close>

definition lines_of :: "'c decoder \<Rightarrow> (nat \<times> byte list) list" where
  "lines_of st = map (\<lambda>item. (channel item, text_f item)) (tracestrings st)"

subsection \<open>The parts of the work on a packet\<close>

text \<open>
  The work on a packet of the queue, taken apart: the statements in front of the loop
  \<^verbatim>\<open>while (pktlen > 0)\<close>, the loop itself, and the statement that follows it. The lemmas
  \<open>process_packet_start\<close> and \<open>itm_loop_while\<close> show that the parts make up
  \<open>process_packet\<close> and \<open>itm_loop\<close>.

  The statements in front of the loop either jump to \<^verbatim>\<open>skip_packet\<close> (the test of the data
  size of a packet in the cache) or enter the loop with a state, a channel, the bytes in
  \<^verbatim>\<open>buffer\<close> and the rest of the packet of the queue.
\<close>

datatype 'c frame_start =
  StartSkip "'c decoder"
| StartLoop "'c decoder" nat "byte list" "byte list"

definition packet_start :: "'c collab \<Rightarrow> 'c decoder \<Rightarrow> byte list \<Rightarrow> fault + 'c frame_start" where
  "packet_start env st pktdata =
     (if 0 < length (itm_cache st) then
        (let chan = ITM_CHANNEL (hd (itm_cache st));
             len = ITM_LENGTH (hd (itm_cache st))
         in case check_datasize st len of
              None \<Rightarrow> Inr (StartSkip (itm_skip env st))
            | Some st1 \<Rightarrow>
                if \<not> length (itm_cache st1) \<le> 4 then Inl AssertFailed
                else if \<not> length (itm_cache st1) - 1 < len then Inl AssertFailed
                else
                  (let buffer = tl (itm_cache st1);
                       skip = len - (length (itm_cache st1) - 1)
                   in if length pktdata < skip then Inl OutOfBounds
                      else Inr (StartLoop (st1\<lparr>itm_cache := []\<rparr>) chan
                                  (buffer @ take skip pktdata) (drop skip pktdata))))
      else if \<not> 0 < length pktdata then Inl AssertFailed
      else Inr (StartLoop st (ITM_CHANNEL (hd pktdata)) [] pktdata))"

text \<open>
  The loop is left in three ways: at the end of the packet (\<^verbatim>\<open>pktlen\<close> is 0), by the
  \<^verbatim>\<open>break\<close> behind the copy into the cache, and by a jump to \<^verbatim>\<open>skip_packet\<close>. The first
  two lead to the statement behind the loop, with the channel and the bytes in \<^verbatim>\<open>buffer\<close>.
\<close>

datatype 'c loop_exit =
  LoopEnd "'c decoder" nat "byte list"
| LoopBreak "'c decoder" nat "byte list"
| LoopSkip "'c decoder"

function itm_while ::
  "'c collab \<Rightarrow> real \<Rightarrow> 'c decoder \<Rightarrow> nat \<Rightarrow> byte list \<Rightarrow> byte list
     \<Rightarrow> fault + 'c loop_exit" where
  "itm_while env ts st chan buffer pktdata =
     (if pktdata = [] then Inr (LoopEnd st chan buffer)
      else if hd pktdata = 0x17 then itm_while env ts st chan buffer (drop 5 pktdata)
      else if \<not> ITM_VALIDHDR (hd pktdata) then Inr (LoopSkip (itm_skip env st))
      else
        (case chan_switch env ts st chan buffer (hd pktdata) of
           Inl f \<Rightarrow> Inl f
         | Inr st1 \<Rightarrow>
             (let chan1 = ITM_CHANNEL (hd pktdata);
                  buffer1 = (if chan \<noteq> ITM_CHANNEL (hd pktdata) then [] else buffer);
                  len = ITM_LENGTH (hd pktdata)
              in if length pktdata < len + 1
                 then Inr (LoopBreak (st1\<lparr>itm_cache := pktdata\<rparr>) chan1 buffer1)
                 else
                   (case check_datasize st1 len of
                      None \<Rightarrow> Inr (LoopSkip (itm_skip env st1))
                    | Some st2 \<Rightarrow>
                        itm_while env ts st2 chan1 (buffer1 @ take len (tl pktdata))
                          (drop (len + 1) pktdata)))))"
  by pat_completeness auto
termination
  by (relation "measure (\<lambda>(env, ts, st, chan, buffer, pktdata). length pktdata)") auto

declare itm_while.simps [simp del]

text \<open>
  A sequence of whole packets: each is a PC sample packet, the byte 0x17 and four more
  bytes, or a stimulus packet, a valid header and the data bytes that the header announces.
\<close>

function whole_packets :: "byte list \<Rightarrow> bool" where
  "whole_packets [] = True"
| "whole_packets (h # rest) =
     (if h = 0x17 then 4 \<le> length rest \<and> whole_packets (drop 4 rest)
      else ITM_VALIDHDR h \<and> ITM_LENGTH h \<le> length rest
           \<and> whole_packets (drop (ITM_LENGTH h) rest))"
  by pat_completeness auto
termination
  by (relation "measure length") auto

text \<open>
  For the examples: collaborators whose \<^verbatim>\<open>ctf_decode_reset\<close> sets the state of the CTF
  decoder, here a number, to 0, and a state of the decoder in which that number is 7.
\<close>

definition env_reset :: "nat collab" where
  "env_reset = \<lparr>stream_isactive = (\<lambda>_. False), ctf_decode = (\<lambda>c _ _. (0, c)),
                 ctf_decode_reset = (\<lambda>c. \<lparr>msgstack = [], ctf_decoder = 0\<rparr>),
                 malloc_ok = (\<lambda>_. True)\<rparr>"

definition st_ctf7 :: "nat decoder" where
  "st_ctf7 = \<lparr>channels = (\<lambda>i. \<lparr>enabled = (i < 2), name = (if i = 0 then ''A'' else ''B'')\<rparr>),
               tracestrings = [], itm_cache = [], itm_datasize = 1, itm_datasz_auto = False,
               itm_packet_errors = 0, ctf = \<lparr>msgstack = [], ctf_decoder = 7\<rparr>, mallocs = 0\<rparr>"

subsection \<open>Decoding a stream that arrives in frames\<close>

text \<open>
  The reader thread puts the frames, each with its time stamp, into the empty queue, and
  \<^verbatim>\<open>tracestring_process\<close> decodes them: the state of the decoder and the trace lines that
  result (\<open>None\<close> when the decoder does not return, or not without a fault).
\<close>

definition decoded_state ::
  "'c collab \<Rightarrow> 'c decoder \<Rightarrow> (byte list \<times> real) list \<Rightarrow> 'c decoder option" where
  "decoded_state env st reads =
     (case tracestring_process env True (trace_read ring_init reads) st of
        Some (Inr (count, r, st')) \<Rightarrow> Some st'
      | _ \<Rightarrow> None)"

definition decoded_lines ::
  "'c collab \<Rightarrow> 'c decoder \<Rightarrow> (byte list \<times> real) list \<Rightarrow> (nat \<times> byte list) list option" where
  "decoded_lines env st reads = map_option lines_of (decoded_state env st reads)"

subsection \<open>A reference decoder for a stream of packets\<close>

text \<open>
  The following definitions are not taken from the code. They describe what decoding a
  sequence of whole packets in plain text mode means, and the decoder of the code is
  compared with them in the section on the cache.

  \<open>emit\<close> adds bytes to the trace strings of a channel as they are; \<open>emit_strip\<close> adds them
  without the zero bytes at their end, as \<^verbatim>\<open>tracestring_add\<close> does; \<open>grow\<close> is the
  automatic adjustment of the data size.
\<close>

definition emit :: "'c collab \<Rightarrow> real \<Rightarrow> 'c decoder \<Rightarrow> nat \<Rightarrow> byte list \<Rightarrow> 'c decoder" where
  "emit env ts st chan payload =
     (if enabled (channels st chan) then foldl (add_plain_byte env chan ts) st payload else st)"

definition emit_strip :: "'c collab \<Rightarrow> real \<Rightarrow> 'c decoder \<Rightarrow> nat \<Rightarrow> byte list \<Rightarrow> 'c decoder" where
  "emit_strip env ts st chan payload =
     (if enabled (channels st chan) then add_plain env chan ts st payload else st)"






text \<open>The data size that the decoder accepts: 4 with automatic adjustment.\<close>

definition accepted_size :: "'c decoder \<Rightarrow> nat" where
  "accepted_size st = (if itm_datasz_auto st then 4 else itm_datasize st)"







text \<open>
  The time criterion of \<^verbatim>\<open>tracestring_add\<close>: text that comes at the time \<open>ts\<close> is more than
  0.1 seconds behind the last trace string.
\<close>

definition late :: "real \<Rightarrow> TRACESTRING list \<Rightarrow> bool" where
  "late ts strings = (strings \<noteq> [] \<and> ts - timestamp (last strings) > 0.1)"

text \<open>
  Two trace strings that differ in their time stamps at most, and two states of the
  decoder that differ in the time stamps of their trace strings at most, such that text
  for the first that comes at a time in \<open>T\<close> meets the time criterion if and only if text
  for the second that comes at the time \<open>ts\<close> does.
\<close>

definition same_text :: "TRACESTRING \<Rightarrow> TRACESTRING \<Rightarrow> bool" where
  "same_text a b =
     (text_f a = text_f b \<and> size_f a = size_f b \<and> channel a = channel b \<and> flags a = flags b)"

definition same_but_time :: "real set \<Rightarrow> real \<Rightarrow> 'c decoder \<Rightarrow> 'c decoder \<Rightarrow> bool" where
  "same_but_time T ts a b =
     (channels a = channels b \<and> itm_cache a = itm_cache b \<and> itm_datasize a = itm_datasize b
      \<and> itm_datasz_auto a = itm_datasz_auto b \<and> itm_packet_errors a = itm_packet_errors b
      \<and> ctf a = ctf b \<and> mallocs a = mallocs b
      \<and> list_all2 same_text (tracestrings a) (tracestrings b)
      \<and> (\<forall>t \<in> T. late t (tracestrings a) = late ts (tracestrings b)))"


subsection \<open>The configuration of the timeline\<close>

text \<open>
  \<^verbatim>\<open>mark_spacing\<close> (a \<^verbatim>\<open>float\<close>), \<^verbatim>\<open>mark_scale\<close> and \<^verbatim>\<open>mark_deltatime\<close> (both
  \<^verbatim>\<open>unsigned long\<close>; the values that occur below stay far from the wrap-around, so they
  are natural numbers).
\<close>

record timeline_cfg =
  mark_spacing :: real
  mark_scale :: nat
  mark_deltatime :: nat

definition MARK_SECOND :: nat where
  "MARK_SECOND = 1000000"

definition timeline_setconfig :: "timeline_cfg \<Rightarrow> real \<Rightarrow> nat \<Rightarrow> nat \<Rightarrow> timeline_cfg" where
  "timeline_setconfig cfg spacing scale delta =
     (if spacing > 10.0 \<and> scale > 0 \<and> delta > 0 \<and> delta \<le> 100 then
        cfg\<lparr>mark_spacing := spacing, mark_scale := scale, mark_deltatime := delta\<rparr>
      else cfg)"

text \<open>
  The two buttons of \<^verbatim>\<open>timeline_widget\<close>, without the call of \<^verbatim>\<open>timeline_rebuild\<close>
  that follows each (it does not write the three variables). The division of
  \<^verbatim>\<open>mark_deltatime\<close> and \<^verbatim>\<open>mark_scale\<close> is the integer division of C.
\<close>

definition zoom_in :: "timeline_cfg \<Rightarrow> timeline_cfg" where
  "zoom_in cfg =
     (let c1 = cfg\<lparr>mark_spacing := mark_spacing cfg * 1.5\<rparr> in
      if mark_spacing c1 > 700.0 \<and> (mark_deltatime c1 > 1 \<or> mark_scale c1 > 1) then
        (let c2 = c1\<lparr>mark_deltatime := mark_deltatime c1 div 10\<rparr>;
             c3 = c2\<lparr>mark_spacing := mark_spacing c2 / 10.0\<rparr> in
         if mark_deltatime c3 = 0 \<and> mark_scale c3 \<ge> 1000 then
           c3\<lparr>mark_scale := mark_scale c3 div 1000, mark_deltatime := 100\<rparr>
         else c3)
      else c1)"

definition zoom_out :: "timeline_cfg \<Rightarrow> timeline_cfg" where
  "zoom_out cfg =
     (let c1 = (if mark_spacing cfg > 45.0 \<or> mark_scale cfg < 60000000 \<or> mark_deltatime cfg = 1
                then cfg\<lparr>mark_spacing := mark_spacing cfg / 1.5\<rparr> else cfg) in
      if mark_spacing c1 < 70.0 then
        (let c2 = c1\<lparr>mark_deltatime := mark_deltatime c1 * 10\<rparr>;
             c3 = c2\<lparr>mark_spacing := mark_spacing c2 * 10.0\<rparr> in
         if mark_scale c3 < MARK_SECOND \<and> mark_deltatime c3 \<ge> 1000 then
           c3\<lparr>mark_scale := mark_scale c3 * 1000, mark_deltatime := mark_deltatime c3 div 1000\<rparr>
         else c3)
      else c1)"

text \<open>
  The configurations that the specification permits, and "within 1 percent" for the three
  components of a configuration.
\<close>

definition permitted_cfg :: "timeline_cfg \<Rightarrow> bool" where
  "permitted_cfg cfg =
     (mark_spacing cfg \<ge> 10 \<and> mark_scale cfg \<in> {1, 1000, 1000000, 60000000}
      \<and> 1 \<le> mark_deltatime cfg \<and> mark_deltatime cfg \<le> 100)"

definition within_1pct :: "real \<Rightarrow> real \<Rightarrow> bool" where
  "within_1pct x y = (\<bar>x - y\<bar> \<le> \<bar>y\<bar> / 100)"

definition cfg_within_1pct :: "timeline_cfg \<Rightarrow> timeline_cfg \<Rightarrow> bool" where
  "cfg_within_1pct c d =
     (within_1pct (mark_spacing c) (mark_spacing d)
      \<and> within_1pct (real (mark_scale c)) (real (mark_scale d))
      \<and> within_1pct (real (mark_deltatime c)) (real (mark_deltatime d)))"

section \<open>The packet queue drops the newest frame on overflow\<close>

lemma mod128_wrap:
  fixes a :: nat
  assumes "128 \<le> a" "a < 256"
  shows "a mod 128 = a - 128"
proof -
  have "a mod 128 = (a - 128) mod 128" using assms(1) by (rule le_mod_geq)
  also have "\<dots> = a - 128" using assms by (intro mod_less) linarith
  finally show ?thesis .
qed

lemma slot_count_cases:
  fixes h t :: nat
  assumes "h < 128" "t < 128"
  shows "(t + 128 - h) mod 128 = (if h \<le> t then t - h else t + 128 - h)"
proof (cases "h \<le> t")
  case True
  have "(t + 128 - h) mod 128 = t + 128 - h - 128"
    by (rule mod128_wrap) (use assms True in linarith)+
  then show ?thesis using True by (simp only: if_True)
next
  case False
  have "(t + 128 - h) mod 128 = t + 128 - h"
    by (rule mod_less) (use assms False in linarith)
  then show ?thesis using False by (simp only: if_False)
qed

lemma slot_succ_cases:
  fixes t :: nat
  assumes "t < 128"
  shows "(t + 1) mod 128 = (if t = 127 then 0 else t + 1)"
proof (cases "t = 127")
  case True
  then show ?thesis by simp
next
  case False
  have "(t + 1) mod 128 = t + 1" by (rule mod_less) (use assms False in linarith)
  then show ?thesis using False by (simp only: if_False)
qed

lemma slot_distinct:
  fixes h t i :: nat
  assumes h: "h < 128" and t: "t < 128" and i: "i < (t + 128 - h) mod 128"
  shows "(h + i) mod 128 \<noteq> t"
proof -
  have i': "i < (if h \<le> t then t - h else t + 128 - h)"
    using i unfolding slot_count_cases [OF h t] .
  show ?thesis
  proof (cases "h + i < 128")
    case True
    have "(h + i) mod 128 = h + i" using True by (rule mod_less)
    moreover have "h + i \<noteq> t" using i' True by (auto split: if_splits)
    ultimately show ?thesis by (simp only: not_False_eq_True)
  next
    case False
    have lt: "h + i < 256" using i' h t by (auto split: if_splits)
    have "(h + i) mod 128 = h + i - 128"
      by (rule mod128_wrap) (use False lt in linarith)+
    moreover have "h + i - 128 \<noteq> t" using i' False h t by (auto split: if_splits)
    ultimately show ?thesis by (simp only: not_False_eq_True)
  qed
qed

lemma slot_tail:
  fixes h t :: nat
  assumes h: "h < 128" and t: "t < 128"
  shows "(h + (t + 128 - h) mod 128) mod 128 = t"
proof (cases "h \<le> t")
  case True
  have "(t + 128 - h) mod 128 = t - h" using True by (simp only: slot_count_cases [OF h t] if_True)
  moreover have "h + (t - h) = t" using True by linarith
  moreover have "t mod 128 = t" using t by (rule mod_less)
  ultimately show ?thesis by (simp only: not_False_eq_True)
next
  case False
  have "(t + 128 - h) mod 128 = t + 128 - h" using False by (simp only: slot_count_cases [OF h t] if_False)
  moreover have "h + (t + 128 - h) = t + 128" using h by linarith
  moreover have "(t + 128) mod 128 = t" using t by simp
  ultimately show ?thesis by (simp only: not_False_eq_True)
qed

lemma slot_count_suc:
  fixes h t :: nat
  assumes h: "h < 128" and t: "t < 128" and c: "(t + 128 - h) mod 128 < 127"
  shows "((t + 1) mod 128 + 128 - h) mod 128 = Suc ((t + 128 - h) mod 128)"
proof -
  have c': "(if h \<le> t then t - h else t + 128 - h) < 127"
    using c unfolding slot_count_cases [OF h t] .
  define t' where "t' = (t + 1) mod 128"
  have t'_eq: "t' = (if t = 127 then 0 else t + 1)"
    unfolding t'_def by (rule slot_succ_cases [OF t])
  have t'_lt: "t' < 128" unfolding t'_def by simp
  have "(t' + 128 - h) mod 128 = (if h \<le> t' then t' - h else t' + 128 - h)"
    by (rule slot_count_cases [OF h t'_lt])
  also have "\<dots> = Suc (if h \<le> t then t - h else t + 128 - h)"
    using c' h t unfolding t'_eq by (auto split: if_splits)
  finally show ?thesis
    unfolding t'_def slot_count_cases [OF h t] .
qed

lemma slot_full:
  fixes h t :: nat
  assumes h: "h < 128" and t: "t < 128"
  shows "((t + 1) mod 128 = h) = ((t + 128 - h) mod 128 = 127)"
  unfolding slot_count_cases [OF h t] slot_succ_cases [OF t]
  using h t by (auto split: if_splits)

lemma ring_count_less:
  "ring_count r < 128"
  by (simp add: ring_count_def PACKET_NUM_def)

lemma enqueue_step:
  assumes h: "tracequeue_head r < 128" and t: "tracequeue_tail r < 128"
    and b: "buffer \<noteq> []"
  shows "tracequeue_head (trace_enqueue r buffer ts) = tracequeue_head r"
    and "tracequeue_tail (trace_enqueue r buffer ts) < 128"
    and "ring_contents (trace_enqueue r buffer ts) =
           (if ring_count r < 127 then ring_contents r @ [mk_packet (buffer, ts)]
            else ring_contents r)"
    and "tracequeue_overflow (trace_enqueue r buffer ts) =
           (if ring_count r < 127 then tracequeue_overflow r else tracequeue_overflow r + 1)"
proof -
  have full: "((tracequeue_tail r + 1) mod 128 = tracequeue_head r) = (ring_count r = 127)"
    unfolding ring_count_def PACKET_NUM_def by (rule slot_full [OF h t])
  have lt: "ring_count r < 128" by (rule ring_count_less)
  show "tracequeue_head (trace_enqueue r buffer ts) = tracequeue_head r"
    by (simp add: trace_enqueue_def Let_def)
  show "tracequeue_tail (trace_enqueue r buffer ts) < 128"
    using t by (simp add: trace_enqueue_def Let_def PACKET_NUM_def)
  show "tracequeue_overflow (trace_enqueue r buffer ts) =
           (if ring_count r < 127 then tracequeue_overflow r else tracequeue_overflow r + 1)"
    using b full lt by (auto simp: trace_enqueue_def Let_def PACKET_NUM_def)
  show "ring_contents (trace_enqueue r buffer ts) =
           (if ring_count r < 127 then ring_contents r @ [mk_packet (buffer, ts)]
            else ring_contents r)"
  proof (cases "ring_count r < 127")
    case False
    then have "ring_count r = 127" using lt by simp
    then have "(tracequeue_tail r + 1) mod 128 = tracequeue_head r" using full by simp
    then have "trace_enqueue r buffer ts = r\<lparr>tracequeue_overflow := tracequeue_overflow r + 1\<rparr>"
      using b by (simp add: trace_enqueue_def Let_def PACKET_NUM_def)
    then show ?thesis using False by (simp add: ring_contents_def ring_count_def)
  next
    case True
    let ?r' = "trace_enqueue r buffer ts"
    have ne: "(tracequeue_tail r + 1) mod 128 \<noteq> tracequeue_head r"
      using True full by simp
    have r': "?r' = r\<lparr>trace_queue := (trace_queue r)
                 (tracequeue_tail r := \<lparr>data = buffer, pkt_timestamp = ts\<rparr>),
             tracequeue_tail := (tracequeue_tail r + 1) mod 128\<rparr>"
      using b ne by (simp add: trace_enqueue_def Let_def PACKET_NUM_def)
    have cnt: "ring_count ?r' = Suc (ring_count r)"
      unfolding r' ring_count_def PACKET_NUM_def
      using slot_count_suc [OF h t] True [unfolded ring_count_def PACKET_NUM_def] by simp
    have tl: "(tracequeue_head r + ring_count r) mod 128 = tracequeue_tail r"
      unfolding ring_count_def PACKET_NUM_def by (rule slot_tail [OF h t])
    have old: "i < ring_count r \<Longrightarrow> (tracequeue_head r + i) mod 128 \<noteq> tracequeue_tail r" for i
      unfolding ring_count_def PACKET_NUM_def by (rule slot_distinct [OF h t])
    have "ring_contents ?r' =
            map (\<lambda>i. trace_queue ?r' ((tracequeue_head r + i) mod 128)) [0..<ring_count r]
            @ [trace_queue ?r' ((tracequeue_head r + ring_count r) mod 128)]"
      unfolding ring_contents_def cnt by (simp add: r' PACKET_NUM_def)
    also have "map (\<lambda>i. trace_queue ?r' ((tracequeue_head r + i) mod 128)) [0..<ring_count r]
            = ring_contents r"
      unfolding ring_contents_def PACKET_NUM_def using old by (simp add: r')
    also have "trace_queue ?r' ((tracequeue_head r + ring_count r) mod 128) = mk_packet (buffer, ts)"
      unfolding tl by (simp add: r' mk_packet_def)
    finally show ?thesis using True by simp
  qed
qed

lemma length_ring_contents: "length (ring_contents r) = ring_count r"
  by (simp add: ring_contents_def)

lemma trace_read_fill:
  assumes "tracequeue_head r < 128" "tracequeue_tail r < 128" "\<forall>rd \<in> set reads. fst rd \<noteq> []"
  shows "tracequeue_head (trace_read r reads) = tracequeue_head r
       \<and> tracequeue_tail (trace_read r reads) < 128
       \<and> ring_contents (trace_read r reads) = take 127 (ring_contents r @ map mk_packet reads)
       \<and> tracequeue_overflow (trace_read r reads) =
           tracequeue_overflow r + int (ring_count r + length reads - 127)"
  using assms
proof (induction reads arbitrary: r)
  case Nil
  have "ring_count r \<le> 127" using ring_count_less [of r] by simp
  then show ?case using Nil by (simp add: length_ring_contents)
next
  case (Cons rd reads)
  obtain buffer ts where rd: "rd = (buffer, ts)" by (cases rd)
  have b: "buffer \<noteq> []" using Cons.prems(3) rd by simp
  let ?r1 = "trace_enqueue r buffer ts"
  note st = enqueue_step [OF Cons.prems(1) Cons.prems(2) b, of ts]
  have ih: "tracequeue_head (trace_read ?r1 reads) = tracequeue_head ?r1
       \<and> tracequeue_tail (trace_read ?r1 reads) < 128
       \<and> ring_contents (trace_read ?r1 reads) = take 127 (ring_contents ?r1 @ map mk_packet reads)
       \<and> tracequeue_overflow (trace_read ?r1 reads) =
           tracequeue_overflow ?r1 + int (ring_count ?r1 + length reads - 127)"
    by (rule Cons.IH) (use st Cons.prems in simp_all)
  show ?case
  proof (cases "ring_count r < 127")
    case True
    have c1: "ring_count ?r1 = Suc (ring_count r)"
      using st(3) True length_ring_contents [of ?r1] length_ring_contents [of r] by simp
    show ?thesis using ih True st c1 by (simp add: rd)
  next
    case False
    then have c: "ring_count r = 127" using ring_count_less [of r] by simp
    have c1: "ring_count ?r1 = 127"
      using st(3) False c length_ring_contents [of ?r1] length_ring_contents [of r] by simp
    have l: "length (ring_contents r) = 127" using c by (simp add: length_ring_contents)
    show ?thesis using ih False st c c1 l by (simp add: rd)
  qed
qed

text \<open>
  C4. A read that arrives while \<open>(tail + 1) mod 128 = head\<close> changes nothing but the
  overflow counter, which grows by one: the queue drops the newest frame. Hence 200 reads
  into an empty queue that is not drained leave the first 127 frames in the queue and an
  overflow count of 73.
\<close>

theorem ring_overflow_drop_newest:
  "((tracequeue_tail r + 1) mod PACKET_NUM = tracequeue_head r \<and> buffer \<noteq> [] \<longrightarrow>
      trace_enqueue r buffer ts = r\<lparr>tracequeue_overflow := tracequeue_overflow r + 1\<rparr>)
   \<and> (tracequeue_head r0 = tracequeue_tail r0 \<and> tracequeue_tail r0 < PACKET_NUM
        \<and> length reads = 200 \<and> (\<forall>rd \<in> set reads. fst rd \<noteq> []) \<longrightarrow>
      ring_contents (trace_read r0 reads) = map mk_packet (take 127 reads)
      \<and> ring_count (trace_read r0 reads) = 127
      \<and> tracequeue_head (trace_read r0 reads) = tracequeue_head r0
      \<and> tracequeue_overflow (trace_read r0 reads) = tracequeue_overflow r0 + 73)"
proof (intro conjI impI)
  assume "(tracequeue_tail r + 1) mod PACKET_NUM = tracequeue_head r \<and> buffer \<noteq> []"
  then show "trace_enqueue r buffer ts = r\<lparr>tracequeue_overflow := tracequeue_overflow r + 1\<rparr>"
    by (simp add: trace_enqueue_def Let_def)
next
  assume a: "tracequeue_head r0 = tracequeue_tail r0 \<and> tracequeue_tail r0 < PACKET_NUM
        \<and> length reads = 200 \<and> (\<forall>rd \<in> set reads. fst rd \<noteq> [])"
  then have h: "tracequeue_head r0 < 128" and t: "tracequeue_tail r0 < 128"
    and ne: "\<forall>rd \<in> set reads. fst rd \<noteq> []" and len: "length reads = 200"
    by (simp_all add: PACKET_NUM_def)
  have c0: "ring_count r0 = 0" using a by (simp add: ring_count_def PACKET_NUM_def)
  have e0: "ring_contents r0 = []" using c0 length_ring_contents [of r0] by simp
  note f = trace_read_fill [OF h t ne]
  show "ring_contents (trace_read r0 reads) = map mk_packet (take 127 reads)"
    using f e0 by (simp add: take_map)
  then show "ring_count (trace_read r0 reads) = 127"
    using len length_ring_contents [of "trace_read r0 reads"] by simp
  show "tracequeue_head (trace_read r0 reads) = tracequeue_head r0" using f by simp
  show "tracequeue_overflow (trace_read r0 reads) = tracequeue_overflow r0 + 73"
    using f c0 len by simp
qed

theorem ring_overflow_drop_newest_witness:
  "trace_enqueue (ring_init\<lparr>tracequeue_head := 1\<rparr>) [0x41] 0 =
      ring_init\<lparr>tracequeue_head := 1, tracequeue_overflow := 1\<rparr>
   \<and> ring_count (trace_read ring_init (replicate 200 ([0x41], 0))) = 127
   \<and> tracequeue_overflow (trace_read ring_init (replicate 200 ([0x41], 0))) = 73"
  using ring_overflow_drop_newest [of "ring_init\<lparr>tracequeue_head := 1\<rparr>" "[0x41]" 0
      ring_init "replicate 200 ([0x41], 0)"]
  by (simp add: ring_init_def PACKET_NUM_def)

section \<open>Searching by time stamp\<close>

lemma findtimestamp_loop_takeWhile:
  "findtimestamp_loop strings ts line =
     line + int (length (takeWhile (\<lambda>s. timestamp s < ts) strings))"
  by (induction strings arbitrary: line) simp_all

lemma sorted_below_iff:
  fixes xs :: "real list"
  assumes "sorted xs" "i < length xs"
  shows "(xs ! i < t) = (i < length (takeWhile (\<lambda>x. x < t) xs))"
proof
  assume "i < length (takeWhile (\<lambda>x. x < t) xs)"
  then show "xs ! i < t"
    using nth_mem [of i "takeWhile (\<lambda>x. x < t) xs"] set_takeWhileD [of "xs ! i" "\<lambda>x. x < t" xs]
    by (simp add: takeWhile_nth)
next
  assume lt: "xs ! i < t"
  show "i < length (takeWhile (\<lambda>x. x < t) xs)"
  proof (rule ccontr)
    let ?k = "length (takeWhile (\<lambda>x. x < t) xs)"
    assume "\<not> i < ?k"
    then have ki: "?k \<le> i" by simp
    then have k: "?k < length xs" using assms(2) by simp
    then have "\<not> xs ! ?k < t" by (rule nth_length_takeWhile)
    moreover have "xs ! ?k \<le> xs ! i" using assms ki by (simp add: sorted_nth_mono)
    ultimately show False using lt by simp
  qed
qed

text \<open>
  C2, as amended. \<^verbatim>\<open>tracestring_findtimestamp\<close> returns one less than the number of
  leading trace strings whose time stamp is below \<open>ts\<close>. It returns -1 exactly when the
  list is empty or its first time stamp is not below \<open>ts\<close>. When the time stamps do not
  decrease along the list, the strings with a time stamp below \<open>ts\<close> are those up to the
  returned index, which is then the index of the last of them.
\<close>

theorem findtimestamp_prefix:
  "tracestring_findtimestamp strings ts =
      int (length (takeWhile (\<lambda>s. timestamp s < ts) strings)) - 1
   \<and> ((tracestring_findtimestamp strings ts = - 1) =
        (strings = [] \<or> ts \<le> timestamp (hd strings)))
   \<and> (sorted (map timestamp strings) \<longrightarrow>
        (\<forall>i < length strings.
           (timestamp (strings ! i) < ts) = (int i \<le> tracestring_findtimestamp strings ts)))"
proof (intro conjI impI allI)
  show eq: "tracestring_findtimestamp strings ts =
      int (length (takeWhile (\<lambda>s. timestamp s < ts) strings)) - 1"
    by (simp add: tracestring_findtimestamp_def findtimestamp_loop_takeWhile)
  show "(tracestring_findtimestamp strings ts = - 1) =
        (strings = [] \<or> ts \<le> timestamp (hd strings))"
    unfolding eq by (cases strings) auto
  fix i
  assume s: "sorted (map timestamp strings)" and i: "i < length strings"
  have "(map timestamp strings ! i < ts) =
          (i < length (takeWhile (\<lambda>x. x < ts) (map timestamp strings)))"
    by (rule sorted_below_iff [OF s]) (use i in simp)
  then show "(timestamp (strings ! i) < ts) = (int i \<le> tracestring_findtimestamp strings ts)"
    unfolding eq using i by (simp add: takeWhile_map comp_def)
qed

theorem findtimestamp_prefix_witness:
  "tracestring_findtimestamp [mk_string [0x41] 0 1, mk_string [0x42] 0 2, mk_string [0x43] 0 4] 3 = 1
   \<and> sorted (map timestamp [mk_string [0x41] 0 1, mk_string [0x42] 0 2, mk_string [0x43] 0 4])
   \<and> timestamp ([mk_string [0x41] 0 1, mk_string [0x42] 0 2, mk_string [0x43] 0 4] ! 1) < 3"
  using findtimestamp_prefix [of "[mk_string [0x41] 0 1, mk_string [0x42] 0 2, mk_string [0x43] 0 4]" 3]
  by (simp add: mk_string_def)

text \<open>
  The claim as stated fails: a list that is not empty gives -1 when its first string is
  not older than \<open>ts\<close>.
\<close>

theorem findtimestamp_counterexample:
  "tracestring_findtimestamp [mk_string [0x41] 0 5] 3 = - 1 \<and> [mk_string [0x41] 0 5] \<noteq> []"
  by (simp add: tracestring_findtimestamp_def mk_string_def)

section \<open>Searching for a text\<close>

subsection \<open>The search within a line\<close>

lemma toupper_diff_zero:
  "(int (unat (toupper a)) - int (unat (toupper b)) = 0) = (toupper a = toupper b)"
  by (simp add: word_uint_eq_iff)

lemma memicmp_map:
  "n \<le> length p1 \<Longrightarrow> n \<le> length p2 \<Longrightarrow>
     \<exists>d. memicmp p1 p2 n = Some d
        \<and> (d = 0) = (map toupper (take n p1) = map toupper (take n p2))"
proof (induction p1 p2 n rule: memicmp.induct)
  case (2 a p1 b p2 count)
  then show ?case using toupper_diff_zero [of a b] by (auto simp: Let_def)
qed simp_all

lemma skip_to_props:
  "idx \<le> length ltext \<Longrightarrow>
     skip_to ltext c idx \<le> length ltext
     \<and> (\<forall>j. idx \<le> j \<and> j < skip_to ltext c idx \<longrightarrow> toupper (ltext ! j) \<noteq> toupper c)
     \<and> (skip_to ltext c idx < length ltext \<longrightarrow>
          toupper (ltext ! skip_to ltext c idx) = toupper c)"
proof (induction ltext c idx rule: skip_to.induct)
  case (1 ltext c idx)
  show ?case
  proof (cases "idx < length ltext \<and> toupper (ltext ! idx) \<noteq> toupper c")
    case True
    then have eq: "skip_to ltext c idx = skip_to ltext c (idx + 1)"
      by (subst skip_to.simps) simp
    have ih: "skip_to ltext c (idx + 1) \<le> length ltext
     \<and> (\<forall>j. idx + 1 \<le> j \<and> j < skip_to ltext c (idx + 1) \<longrightarrow> toupper (ltext ! j) \<noteq> toupper c)
     \<and> (skip_to ltext c (idx + 1) < length ltext \<longrightarrow>
          toupper (ltext ! skip_to ltext c (idx + 1)) = toupper c)"
      using 1(1) True by simp
    have "toupper (ltext ! j) \<noteq> toupper c" if "idx \<le> j" "j < skip_to ltext c (idx + 1)" for j
    proof (cases "j = idx")
      case True
      then show ?thesis using \<open>idx < length ltext \<and> toupper (ltext ! idx) \<noteq> toupper c\<close> by simp
    next
      case False
      then show ?thesis using that ih by simp
    qed
    then show ?thesis using ih unfolding eq by blast
  next
    case False
    then have eq: "skip_to ltext c idx = idx" by (subst skip_to.simps) auto
    show ?thesis using False 1(2) unfolding eq by auto
  qed
qed

lemma match_at_first:
  assumes "match_at ltext pat i" "pat \<noteq> []"
  shows "i < length ltext \<and> toupper (ltext ! i) = toupper (first_char pat)"
proof -
  obtain c cs where p: "pat = c # cs" using assms(2) by (cases pat) auto
  have i: "i < length ltext" using assms(1) p by (simp add: match_at_def)
  then have "drop i ltext = ltext ! i # drop (Suc i) ltext" by (simp add: Cons_nth_drop_Suc)
  then show ?thesis using assms(1) p i by (simp add: match_at_def first_char_def)
qed

lemma find_in_line_spec:
  "idx \<le> length ltext \<Longrightarrow>
     \<exists>r. find_in_line ltext pat idx = Inr r
        \<and> (r + length pat \<le> length ltext) = (\<exists>i \<ge> idx. match_at ltext pat i)"
proof (induction ltext pat idx rule: find_in_line.induct)
  case (1 ltext pat idx)
  show ?case
  proof (cases "idx < length ltext")
    case False
    then have e: "idx = length ltext" using 1(2) by simp
    have "find_in_line ltext pat idx = Inr idx" using False by (subst find_in_line.simps) simp
    moreover have "(idx + length pat \<le> length ltext) = (\<exists>i \<ge> idx. match_at ltext pat i)"
      unfolding e by (auto simp: match_at_def)
    ultimately show ?thesis by simp
  next
    case True
    define idx1 where "idx1 = skip_to ltext (first_char pat) idx"
    note sk = skip_to_props [OF 1(2), of "first_char pat", folded idx1_def]
    have ge: "idx \<le> idx1" unfolding idx1_def by (rule skip_to_ge)
    have before: "\<not> match_at ltext pat j" if "idx \<le> j" "j < idx1" "pat \<noteq> []" for j
      using match_at_first [of ltext pat j] sk that by blast
    show ?thesis
    proof (cases "idx1 + length pat > length ltext")
      case over: True
      have r: "find_in_line ltext pat idx = Inr idx1"
        using True over by (subst find_in_line.simps) (simp add: idx1_def Let_def)
      have pne: "pat \<noteq> []" using over sk by auto
      have "\<not> match_at ltext pat i" if "idx \<le> i" for i
      proof (cases "i < idx1")
        case True
        then show ?thesis using before [OF that _ pne] by simp
      next
        case False
        then show ?thesis using over by (simp add: match_at_def)
      qed
      then show ?thesis using r over by auto
    next
      case fits: False
      have fl: "length pat \<le> length (drop idx1 ltext)" using fits by simp
      obtain d where d: "memicmp (drop idx1 ltext) pat (length pat) = Some d"
        and d0: "(d = 0) = (map toupper (take (length pat) (drop idx1 ltext)) = map toupper (take (length pat) pat))"
        using memicmp_map [OF fl order_refl] by blast
      have m1: "(d = 0) = match_at ltext pat idx1" using d0 fits by (simp add: match_at_def)
      show ?thesis
      proof (cases "d = 0")
        case True
        have r: "find_in_line ltext pat idx = Inr idx1"
          using \<open>idx < length ltext\<close> fits d True
          by (subst find_in_line.simps) (simp add: idx1_def Let_def)
        show ?thesis using r fits m1 True ge by auto
      next
        case False
        have pne: "pat \<noteq> []" using False d by auto
        have r: "find_in_line ltext pat idx = find_in_line ltext pat (idx1 + 1)"
          using \<open>idx < length ltext\<close> fits d False
          by (subst find_in_line.simps) (simp add: idx1_def Let_def)
        have lt: "idx1 + 1 \<le> length ltext" using fits pne by (cases pat) simp_all
        obtain r' where ih: "find_in_line ltext pat (idx1 + 1) = Inr r'"
          "(r' + length pat \<le> length ltext) = (\<exists>i \<ge> idx1 + 1. match_at ltext pat i)"
          using 1(1) [OF \<open>idx < length ltext\<close> idx1_def fits d False lt] by blast
        have "(\<exists>i \<ge> idx. match_at ltext pat i) = (\<exists>i \<ge> idx1 + 1. match_at ltext pat i)"
        proof
          assume "\<exists>i \<ge> idx. match_at ltext pat i"
          then obtain i where i: "idx \<le> i" "match_at ltext pat i" by blast
          have "\<not> i < idx1" using before [OF i(1) _ pne] i(2) by blast
          moreover have "i \<noteq> idx1" using m1 False i(2) by blast
          ultimately have "idx1 + 1 \<le> i" by simp
          then show "\<exists>i \<ge> idx1 + 1. match_at ltext pat i" using i(2) by blast
        next
          assume "\<exists>i \<ge> idx1 + 1. match_at ltext pat i"
          then show "\<exists>i \<ge> idx. match_at ltext pat i" using ge by (meson le_trans le_add1)
        qed
        then show ?thesis using r ih by simp
      qed
    qed
  qed
qed

subsection \<open>The search over the lines\<close>

text \<open>
  Started with \<open>curline = -1\<close>, the search is left after one pass over the lines, with
  the number of the first line that holds the text, or with -1 when no line holds it.
\<close>

lemma line_has_find:
  "\<exists>r. find_in_line (text_f item) pat 0 = Inr r
      \<and> (int r + int (length pat) \<le> int (length (text_f item))) = line_has item pat"
proof -
  obtain r where r: "find_in_line (text_f item) pat 0 = Inr r"
    "(r + length pat \<le> length (text_f item)) = (\<exists>i \<ge> 0. match_at (text_f item) pat i)"
    using find_in_line_spec [of 0 "text_f item" pat] by auto
  have "i \<le> length (text_f item)" if "match_at (text_f item) pat i" for i
    using that by (simp add: match_at_def)
  then have "(\<exists>i \<ge> 0. match_at (text_f item) pat i) = line_has item pat"
    unfolding line_has_def by blast
  then show ?thesis using r by (simp add: of_nat_add [symmetric] del: of_nat_add)
qed

lemma find_loop_scan:
  "item \<noteq> [] \<Longrightarrow> 0 < line \<or> curline < 0 \<Longrightarrow> 0 \<le> line \<Longrightarrow>
     find_loop first pat 0 curline line item = Some (Inr (first_match item pat line))"
proof (induction item arbitrary: line curline)
  case Nil
  then show ?case by simp
next
  case (Cons x xs)
  obtain r where r: "find_in_line (text_f x) pat 0 = Inr r"
    "(int r + int (length pat) \<le> int (length (text_f x))) = line_has x pat"
    using line_has_find [of x pat] by blast
  have cond: "line \<noteq> 0 \<or> curline < 0" using Cons.prems(2) by auto
  show ?case
  proof (cases "line_has x pat")
    case True
    then show ?thesis using r cond by (subst find_loop.simps) simp
  next
    case False
    show ?thesis
    proof (cases "xs = []")
      case True
      have "find_loop first pat 0 0 0 first = Some (Inr (- 1))"
        by (subst find_loop.simps) simp
      then show ?thesis using True False r cond by (subst find_loop.simps) simp
    next
      case ne: False
      have "find_loop first pat 0 0 (line + 1) xs = Some (Inr (first_match xs pat (line + 1)))"
        by (rule Cons.IH [OF ne]) (use Cons.prems(3) in simp_all)
      then show ?thesis using ne False r cond by (subst find_loop.simps) simp
    qed
  qed
qed

lemma tracestring_find_from_start:
  "tracestring_find strings pat (- 1) = Some (Inr (first_match strings pat 0))"
proof (cases strings)
  case Nil
  have "find_loop [] pat 0 (- 1) 0 [] = Some (Inr (- 1))"
    by (subst find_loop.simps) simp
  then show ?thesis using Nil by (simp add: tracestring_find_def)
next
  case (Cons x xs)
  have "find_loop strings pat 0 (- 1) 0 strings = Some (Inr (first_match strings pat 0))"
    by (rule find_loop_scan) (simp_all add: Cons)
  then show ?thesis using Cons by (simp add: tracestring_find_def)
qed

text \<open>
  When the search starts from a current line that is the last line (or lies behind it)
  and no line holds the text, the search loop is never left: the line counter never
  meets \<open>cur_mark\<close>. The smallest instance has one line.
\<close>

lemma find_loop_stuck:
  assumes "find_loop first pat cur_mark curline line item = Some y"
  shows "\<not> (first = [s] \<and> item = [s] \<and> line = 0 \<and> cur_mark = 1
            \<and> find_in_line (text_f s) pat 0 = Inr idx
            \<and> \<not> int idx + int (length pat) \<le> int (length (text_f s)))"
proof (rule find_loop.raw_induct [rotated, OF assms])
  fix f :: "TRACESTRING list \<Rightarrow> byte list \<Rightarrow> int \<Rightarrow> int \<Rightarrow> int \<Rightarrow> TRACESTRING list
     \<Rightarrow> (fault + int) option"
  fix first' pat' cur_mark' curline' line' item' y'
  assume ih: "\<And>first pat cur_mark curline line item y.
      f first pat cur_mark curline line item = Some y \<Longrightarrow>
      \<not> (first = [s] \<and> item = [s] \<and> line = 0 \<and> cur_mark = 1
            \<and> find_in_line (text_f s) pat 0 = Inr idx
            \<and> \<not> int idx + int (length pat) \<le> int (length (text_f s)))"
  assume step: "(if (line' \<noteq> cur_mark' \<or> curline' < 0) \<and> item' \<noteq> [] then
        (case find_in_line (text_f (hd item')) pat' 0 of
           Inl f \<Rightarrow> Some (Inl f)
         | Inr idx \<Rightarrow>
             if int idx + int (length pat') \<le> int (length (text_f (hd item'))) then Some (Inr line')
             else if tl item' = [] then f first' pat' cur_mark' cur_mark' 0 first'
             else f first' pat' cur_mark' cur_mark' (line' + 1) (tl item'))
      else Some (Inr (- 1))) = Some y'"
  show "\<not> (first' = [s] \<and> item' = [s] \<and> line' = 0 \<and> cur_mark' = 1
            \<and> find_in_line (text_f s) pat' 0 = Inr idx
            \<and> \<not> int idx + int (length pat') \<le> int (length (text_f s)))"
  proof
    assume a: "first' = [s] \<and> item' = [s] \<and> line' = 0 \<and> cur_mark' = 1
            \<and> find_in_line (text_f s) pat' 0 = Inr idx
            \<and> \<not> int idx + int (length pat') \<le> int (length (text_f s))"
    then have "f first' pat' cur_mark' cur_mark' 0 first' = Some y'"
      using step by simp
    from ih [OF this] show False using a by simp
  qed
qed

lemma tracestring_find_diverges:
  "tracestring_find [mk_string [0x61] 0 0] [0x78] 0 = None"
proof (rule ccontr)
  assume "tracestring_find [mk_string [0x61] 0 0] [0x78] 0 \<noteq> None"
  then obtain y where "tracestring_find [mk_string [0x61] 0 0] [0x78] 0 = Some y" by auto
  then have "find_loop [mk_string [0x61] 0 0] [0x78] 1 0 0 [mk_string [0x61] 0 0] = Some y"
    by (simp add: tracestring_find_def)
  from find_loop_stuck [OF this, of "mk_string [0x61] 0 0" 1]
  show False by (simp add: mk_string_def find_in_line.simps skip_to.simps first_char_def toupper_def)
qed

text \<open>
  C6 does not hold of the code. With a current line \<open>curline \<ge> 0\<close> the search starts two
  lines behind it and stops in front of line \<open>curline + 1\<close>, which is never looked at:
  of three lines "a", "x", "a", searched for "x" from line 0, the second holds the text,
  and \<^verbatim>\<open>tracestring_find\<close> returns -1.
\<close>

theorem tracestring_find_skips_line:
  "tracestring_find [mk_string [0x61] 0 0, mk_string [0x78] 0 0, mk_string [0x61] 0 0] [0x78] 0
     = Some (Inr (- 1))"
  by (simp add: tracestring_find_def find_loop.simps mk_string_def find_in_line.simps
      skip_to.simps first_char_def toupper_def)

section \<open>Adding trace text\<close>

lemma tracestring_add_plain:
  assumes "chan < NUM_CHANNELS" "buffer \<noteq> []" "\<not> stream_isactive env chan"
  shows "tracestring_add env st chan buffer ts =
           Inr (if enabled (channels st chan) then add_plain env chan ts st buffer else st)"
  using assms by (simp add: tracestring_add_def)

text \<open>
  C7. For a channel that is not enabled, \<^verbatim>\<open>tracestring_add\<close> returns with the state of the
  decoder as it was: the list of trace strings is unchanged and \<^verbatim>\<open>malloc\<close> has not been
  called (the counter \<open>mallocs\<close> is part of the state). This holds for every channel below
  \<^verbatim>\<open>NUM_CHANNELS\<close> and every buffer that is not empty, which is what the assertions of
  the function ask for; otherwise an assertion fails.
\<close>

theorem disabled_channel_noop:
  "\<not> enabled (channels st i) \<Longrightarrow>
     tracestring_add env st i buffer ts =
       (if i < NUM_CHANNELS \<and> buffer \<noteq> [] then Inr st else Inl AssertFailed)"
  by (simp add: tracestring_add_def)

theorem disabled_channel_noop_witness:
  "\<not> enabled (channels st0 5) \<and> tracestring_add env0 st0 5 [0x48, 0x69] 1 = Inr st0"
proof -
  have d: "\<not> enabled (channels st0 5)" by (simp add: st0_def)
  show ?thesis
    using disabled_channel_noop [OF d, of env0 "[0x48, 0x69]" 1] d by (simp add: NUM_CHANNELS_def)
qed

subsection \<open>Newlines\<close>

lemma text_f_seal [simp]: "text_f (seal item) = text_f item"
  by (simp add: seal_def)











subsection \<open>Trailing zero bytes\<close>

lemma strip_length_dropWhile:
  "n \<le> length buffer \<Longrightarrow>
     take (strip_length buffer n) buffer = rev (dropWhile (\<lambda>b. b = 0) (rev (take n buffer)))"
proof (induction n)
  case 0
  then show ?case by simp
next
  case (Suc n)
  then have t: "take (Suc n) buffer = take n buffer @ [buffer ! n]"
    by (simp add: take_Suc_conv_app_nth)
  show ?case
  proof (cases "buffer ! n = 0")
    case True
    then show ?thesis using Suc by (simp add: t)
  next
    case False
    then show ?thesis by (simp add: t)
  qed
qed

lemma strip_length_all_zero:
  assumes "set buffer \<subseteq> {0}"
  shows "take (strip_length buffer (length buffer)) buffer = []"
proof -
  have "dropWhile (\<lambda>b. b = 0) (rev buffer) = []" using assms by auto
  then show ?thesis using strip_length_dropWhile [of "length buffer" buffer] by simp
qed

lemma strip_length_last_nonzero:
  assumes "buffer \<noteq> []" "last buffer \<noteq> 0"
  shows "take (strip_length buffer (length buffer)) buffer = buffer"
proof -
  have "hd (rev buffer) \<noteq> 0" using assms by (simp add: hd_rev)
  then have "dropWhile (\<lambda>b. b = 0) (rev buffer) = rev buffer"
    using assms(1) by (cases "rev buffer") simp_all
  then show ?thesis using strip_length_dropWhile [of "length buffer" buffer] by simp
qed

text \<open>
  C9. In plain text mode, on an enabled channel, \<^verbatim>\<open>tracestring_add\<close> runs the loop over
  the bytes on the buffer without its trailing zero bytes. A buffer of zero bytes only
  leaves the state as it was. A buffer whose last byte is not zero is processed as a
  whole, the zero bytes inside it like every other byte.
\<close>

theorem trailing_nul_stripped:
  assumes "chan < NUM_CHANNELS" "buffer \<noteq> []" "enabled (channels st chan)"
    "\<not> stream_isactive env chan"
  shows "tracestring_add env st chan buffer ts =
           Inr (foldl (add_plain_byte env chan ts) st
                  (rev (dropWhile (\<lambda>b. b = 0) (rev buffer))))
       \<and> (set buffer \<subseteq> {0} \<longrightarrow> tracestring_add env st chan buffer ts = Inr st)
       \<and> (last buffer \<noteq> 0 \<longrightarrow>
            tracestring_add env st chan buffer ts =
              Inr (foldl (add_plain_byte env chan ts) st buffer))"
proof -
  have a: "tracestring_add env st chan buffer ts =
      Inr (foldl (add_plain_byte env chan ts) st (take (strip_length buffer (length buffer)) buffer))"
    using assms by (simp add: tracestring_add_plain add_plain_def)
  have d: "take (strip_length buffer (length buffer)) buffer
             = rev (dropWhile (\<lambda>b. b = 0) (rev buffer))"
    using strip_length_dropWhile [of "length buffer" buffer] by simp
  have "tracestring_add env st chan buffer ts =
           Inr (foldl (add_plain_byte env chan ts) st
                  (rev (dropWhile (\<lambda>b. b = 0) (rev buffer))))"
    unfolding a d ..
  moreover have "tracestring_add env st chan buffer ts = Inr st" if "set buffer \<subseteq> {0}"
    unfolding a strip_length_all_zero [OF that] by simp
  moreover have "tracestring_add env st chan buffer ts =
              Inr (foldl (add_plain_byte env chan ts) st buffer)" if "last buffer \<noteq> 0"
    unfolding a strip_length_last_nonzero [OF assms(2) that] ..
  ultimately show ?thesis by blast
qed

theorem trailing_nul_stripped_witness:
  "tracestring_add env0 st0 0 [0, 0] 1 = Inr st0
   \<and> tracestring_add env0 st0 0 [0, 0, 0x41] 1
       = Inr (foldl (add_plain_byte env0 0 1) st0 [0, 0, 0x41])
   \<and> map text_f (tracestrings (foldl (add_plain_byte env0 0 1) st0 [0, 0, 0x41])) = [[0, 0, 0x41]]
   \<and> tracestring_add env0 st0 0 [0x41, 0, 0] 1
       = Inr (foldl (add_plain_byte env0 0 1) st0 [0x41])"
proof -
  have h: "(0::nat) < NUM_CHANNELS" "enabled (channels st0 0)" "\<not> stream_isactive env0 0"
    by (simp_all add: NUM_CHANNELS_def st0_def env0_def)
  have x: "map text_f (tracestrings (foldl (add_plain_byte env0 0 1) st0 [0, 0, 0x41])) = [[0, 0, 0x41]]"
    by code_simp
  show ?thesis
    using trailing_nul_stripped [OF h(1) _ h(2) h(3), of "[0, 0]" 1]
      trailing_nul_stripped [OF h(1) _ h(2) h(3), of "[0, 0, 0x41]" 1]
      trailing_nul_stripped [OF h(1) _ h(2) h(3), of "[0x41, 0, 0]" 1] x
    by simp
qed

section \<open>What adding text leaves alone\<close>

subsection \<open>The header of a packet\<close>




subsection \<open>The fields of the state\<close>

lemmas plain_defs = add_plain_byte_def append_tail_def new_string_def set_tail_def malloc_def

lemma add_plain_byte_fields:
  "channels (add_plain_byte env chan ts st b) = channels st"
  "itm_cache (add_plain_byte env chan ts st b) = itm_cache st"
  "itm_datasize (add_plain_byte env chan ts st b) = itm_datasize st"
  "itm_datasz_auto (add_plain_byte env chan ts st b) = itm_datasz_auto st"
  by (simp_all add: plain_defs Let_def split: prod.splits)



lemma foldl_plain_fields:
  "channels (foldl (add_plain_byte env chan ts) st bs) = channels st"
  "itm_cache (foldl (add_plain_byte env chan ts) st bs) = itm_cache st"
  "itm_datasize (foldl (add_plain_byte env chan ts) st bs) = itm_datasize st"
  "itm_datasz_auto (foldl (add_plain_byte env chan ts) st bs) = itm_datasz_auto st"
  by (induction bs arbitrary: st) (simp_all add: add_plain_byte_fields)



lemma msg_loop_cache:
  "msg_loop env st ts ms = Inr st' \<Longrightarrow> itm_cache st' = itm_cache st"
proof (induction ms arbitrary: st ts)
  case Nil
  then show ?case by auto
next
  case (Cons m ms)
  show ?case
    using Cons.prems Cons.IH
    by (auto simp: malloc_def Let_def split: if_splits)
qed

lemma tracestring_add_cache:
  "tracestring_add env st chan buffer ts = Inr st' \<Longrightarrow> itm_cache st' = itm_cache st"
  by (auto simp: tracestring_add_def add_plain_def foldl_plain_fields Let_def
           dest: msg_loop_cache split: if_splits prod.splits)

section \<open>Decoding the packets of the queue\<close>

text \<open>
  With head and tail below 128 the loop of \<^verbatim>\<open>tracestring_process\<close> is left, and it
  decodes the packets of the queue in the order in which they were read.
\<close>

lemma slot_count_advance:
  fixes h t :: nat
  assumes h: "h < 128" and t: "t < 128" and ne: "h \<noteq> t"
  shows "Suc ((t + 128 - (h + 1) mod 128) mod 128) = (t + 128 - h) mod 128"
proof -
  define h' where "h' = (h + 1) mod 128"
  have h'_eq: "h' = (if h = 127 then 0 else h + 1)"
    unfolding h'_def by (rule slot_succ_cases [OF h])
  have h'_lt: "h' < 128" unfolding h'_def by simp
  have "Suc ((t + 128 - h') mod 128) = Suc (if h' \<le> t then t - h' else t + 128 - h')"
    by (simp only: slot_count_cases [OF h'_lt t])
  also have "\<dots> = (if h \<le> t then t - h else t + 128 - h)"
    using h t ne unfolding h'_eq by (auto split: if_splits)
  finally show ?thesis
    unfolding h'_def slot_count_cases [OF h t] .
qed

lemma ring_count_zero:
  assumes "tracequeue_head r < 128" "tracequeue_tail r < 128"
  shows "(ring_count r = 0) = (tracequeue_head r = tracequeue_tail r)"
  unfolding ring_count_def PACKET_NUM_def slot_count_cases [OF assms]
  using assms by (auto split: if_splits)

lemma ring_advance:
  assumes h: "tracequeue_head r < 128" and t: "tracequeue_tail r < 128"
    and ne: "tracequeue_head r \<noteq> tracequeue_tail r"
  shows "ring_contents r = trace_queue r (tracequeue_head r)
           # ring_contents (r\<lparr>tracequeue_head := (tracequeue_head r + 1) mod PACKET_NUM\<rparr>)"
proof -
  let ?r' = "r\<lparr>tracequeue_head := (tracequeue_head r + 1) mod PACKET_NUM\<rparr>"
  have c: "ring_count r = Suc (ring_count ?r')"
    unfolding ring_count_def PACKET_NUM_def
    using slot_count_advance [OF h t ne] by simp
  have m: "((tracequeue_head r + 1) mod 128 + i) mod 128 = (tracequeue_head r + Suc i) mod 128" for i
    by (simp add: mod_add_left_eq)
  have m': "(Suc (tracequeue_head r) mod 128 + i) mod 128 = Suc (tracequeue_head r + i) mod 128" for i
    using mod_add_left_eq [of "Suc (tracequeue_head r)" 128 i] by simp
  have "ring_contents r =
          map (\<lambda>i. trace_queue r ((tracequeue_head r + i) mod 128)) [0..<Suc (ring_count ?r')]"
    using c by (simp add: ring_contents_def PACKET_NUM_def del: upt_Suc)
  also have "\<dots> = trace_queue r (tracequeue_head r mod 128)
                   # map (\<lambda>i. trace_queue r ((tracequeue_head r + Suc i) mod 128)) [0..<ring_count ?r']"
    by (simp only: upt_conv_Cons [OF zero_less_Suc] map_Suc_upt [symmetric] list.map map_map comp_def add_0_right)
  also have "\<dots> = trace_queue r (tracequeue_head r) # ring_contents ?r'"
    using h by (simp add: ring_contents_def PACKET_NUM_def m')
  finally show ?thesis .
qed

lemma process_loop_decode:
  assumes "tracequeue_head r < 128" "tracequeue_tail r < 128"
  shows "process_loop env True count r st =
           Some (case decode_frames env st count (ring_contents r) of
                   Inl f \<Rightarrow> Inl f
                 | Inr (st', c) \<Rightarrow> Inr (c, r\<lparr>tracequeue_head := tracequeue_tail r\<rparr>, st'))"
  using assms
proof (induction "ring_count r" arbitrary: r st count)
  case 0
  then have e: "tracequeue_head r = tracequeue_tail r" using ring_count_zero [of r] by simp
  have "ring_contents r = []" using 0(1) by (simp add: ring_contents_def)
  moreover have "r\<lparr>tracequeue_head := tracequeue_tail r\<rparr> = r" using e by simp
  ultimately show ?case using e by (subst process_loop.simps) simp
next
  case (Suc n)
  then have ne: "tracequeue_head r \<noteq> tracequeue_tail r" using ring_count_zero [of r] by auto
  let ?r' = "r\<lparr>tracequeue_head := (tracequeue_head r + 1) mod PACKET_NUM\<rparr>"
  have adv: "ring_contents r = trace_queue r (tracequeue_head r) # ring_contents ?r'"
    by (rule ring_advance [OF Suc.prems ne])
  have n: "n = ring_count ?r'"
    using Suc.hyps(2) adv length_ring_contents [of r] length_ring_contents [of ?r'] by simp
  have h': "tracequeue_head ?r' < 128" "tracequeue_tail ?r' < 128"
    using Suc.prems by (simp_all add: PACKET_NUM_def)
  note ih = Suc.hyps(1) [OF n h']
  show ?case
  proof (cases "process_packet env st (trace_queue r (tracequeue_head r))")
    case (Inl f)
    then show ?thesis using ne adv by (subst process_loop.simps) simp
  next
    case (Inr p)
    obtain st' c where p: "p = (st', c)" by (cases p)
    show ?thesis
      using ne Inr p adv ih [of "count + c" st']
      by (subst process_loop.simps) (simp split: sum.splits)
  qed
qed

section \<open>An invalid header\<close>

subsection \<open>The parts make up the whole\<close>

lemma process_packet_start:
  "process_packet env st pkt =
     (case packet_start env st (data pkt) of
        Inl f \<Rightarrow> Inl f
      | Inr (StartSkip s) \<Rightarrow> Inr (s, 0)
      | Inr (StartLoop s chan buffer rest) \<Rightarrow> itm_loop env (pkt_timestamp pkt) s chan buffer rest)"
  by (simp add: process_packet_def packet_start_def Let_def split: option.splits)

lemma packet_start_cache:
  "packet_start env st pktdata = Inr (StartLoop s chan buffer rest) \<Longrightarrow> itm_cache s = []"
  by (auto simp: packet_start_def Let_def split: if_splits option.splits)

lemma itm_loop_while:
  "itm_loop env ts st chan buffer pktdata =
     (case itm_while env ts st chan buffer pktdata of
        Inl f \<Rightarrow> Inl f
      | Inr (LoopEnd s c b) \<Rightarrow> itm_flush env ts s c b
      | Inr (LoopBreak s c b) \<Rightarrow> itm_flush env ts s c b
      | Inr (LoopSkip s) \<Rightarrow> Inr (s, 0))"
proof (induction "length pktdata" arbitrary: pktdata st chan buffer rule: less_induct)
  case less
  show ?case
  proof (cases pktdata)
    case Nil
    then show ?thesis
      by (subst itm_loop.simps, subst itm_while.simps) simp
  next
    case (Cons h rest)
    have ih: "itm_loop env ts s c b (drop n rest) =
       (case itm_while env ts s c b (drop n rest) of
          Inl f \<Rightarrow> Inl f
        | Inr (LoopEnd s c b) \<Rightarrow> itm_flush env ts s c b
        | Inr (LoopBreak s c b) \<Rightarrow> itm_flush env ts s c b
        | Inr (LoopSkip s) \<Rightarrow> Inr (s, 0))" for s c b n
      by (rule less.hyps) (simp add: Cons)
    show ?thesis
      by (subst itm_loop.simps, subst itm_while.simps)
         (simp add: Cons Let_def ih split: sum.splits option.splits)
  qed
qed

subsection \<open>The loop, step by step\<close>

lemma itm_while_Nil: "itm_while env ts st chan buffer [] = Inr (LoopEnd st chan buffer)"
  by (subst itm_while.simps) simp

lemma itm_while_pc:
  "itm_while env ts st chan buffer (0x17 # rest) = itm_while env ts st chan buffer (drop 4 rest)"
  by (subst itm_while.simps) simp

lemma itm_while_invalid:
  "h \<noteq> 0x17 \<Longrightarrow> \<not> ITM_VALIDHDR h \<Longrightarrow>
     itm_while env ts st chan buffer (h # rest) = Inr (LoopSkip (itm_skip env st))"
  by (subst itm_while.simps) simp

lemma itm_while_step:
  assumes "h \<noteq> 0x17" "ITM_VALIDHDR h" "ITM_LENGTH h \<le> length rest"
  shows "itm_while env ts st chan buffer (h # rest) =
     (case chan_switch env ts st chan buffer h of
        Inl f \<Rightarrow> Inl f
      | Inr st1 \<Rightarrow>
          (case check_datasize st1 (ITM_LENGTH h) of
             None \<Rightarrow> Inr (LoopSkip (itm_skip env st1))
           | Some st2 \<Rightarrow>
               itm_while env ts st2 (ITM_CHANNEL h)
                 ((if chan \<noteq> ITM_CHANNEL h then [] else buffer) @ take (ITM_LENGTH h) rest)
                 (drop (ITM_LENGTH h) rest)))"
  using assms by (subst itm_while.simps) (simp add: Let_def split: sum.splits option.splits)

lemma itm_while_cut:
  assumes "h \<noteq> 0x17" "ITM_VALIDHDR h" "length rest < ITM_LENGTH h"
  shows "itm_while env ts st chan buffer (h # rest) =
     (case chan_switch env ts st chan buffer h of
        Inl f \<Rightarrow> Inl f
      | Inr st1 \<Rightarrow> Inr (LoopBreak (st1\<lparr>itm_cache := h # rest\<rparr>) (ITM_CHANNEL h)
                         (if chan \<noteq> ITM_CHANNEL h then [] else buffer)))"
  using assms by (subst itm_while.simps) (simp add: Let_def split: sum.splits)

lemma itm_while_append:
  "whole_packets pre \<Longrightarrow>
   itm_while env ts st chan buffer (pre @ post) =
     (case itm_while env ts st chan buffer pre of
        Inr (LoopEnd s c b) \<Rightarrow> itm_while env ts s c b post
      | r \<Rightarrow> r)"
proof (induction "length pre" arbitrary: pre st chan buffer rule: less_induct)
  case less
  show ?case
  proof (cases pre)
    case Nil
    then show ?thesis by (simp add: itm_while_Nil)
  next
    case (Cons h rest)
    show ?thesis
    proof (cases "h = 0x17")
      case True
      then have l: "4 \<le> length rest" and w: "whole_packets (drop 4 rest)"
        using less.prems Cons by simp_all
      have a: "itm_while env ts st chan buffer (pre @ post) =
                 itm_while env ts st chan buffer (drop 4 rest @ post)"
        using True l itm_while_pc [of env ts st chan buffer "rest @ post"] by (simp add: Cons)
      have b: "itm_while env ts st chan buffer pre = itm_while env ts st chan buffer (drop 4 rest)"
        using True by (simp add: Cons itm_while_pc)
      show ?thesis
        unfolding a b by (rule less.hyps [OF _ w]) (simp add: Cons)
    next
      case False
      then have v: "ITM_VALIDHDR h" and l: "ITM_LENGTH h \<le> length rest"
        and w: "whole_packets (drop (ITM_LENGTH h) rest)"
        using less.prems Cons by simp_all
      have l': "ITM_LENGTH h \<le> length (rest @ post)" using l by simp
      have ih: "itm_while env ts s c b (drop (ITM_LENGTH h) rest @ post) =
        (case itm_while env ts s c b (drop (ITM_LENGTH h) rest) of
           Inr (LoopEnd s c b) \<Rightarrow> itm_while env ts s c b post
         | r \<Rightarrow> r)" for s c b
        by (rule less.hyps [OF _ w]) (simp add: Cons)
      have t: "take (ITM_LENGTH h) (rest @ post) = take (ITM_LENGTH h) rest"
        and d: "drop (ITM_LENGTH h) (rest @ post) = drop (ITM_LENGTH h) rest @ post"
        using l by simp_all
      show ?thesis
      proof (cases "chan_switch env ts st chan buffer h")
        case (Inl f)
        then show ?thesis
          unfolding Cons append_Cons itm_while_step [OF False v l'] itm_while_step [OF False v l]
          by simp
      next
        case (Inr st1)
        show ?thesis
        proof (cases "check_datasize st1 (ITM_LENGTH h)")
          case None
          then show ?thesis
            unfolding Cons append_Cons itm_while_step [OF False v l'] itm_while_step [OF False v l]
            using Inr by simp
        next
          case (Some st2)
          then show ?thesis
            unfolding Cons append_Cons itm_while_step [OF False v l'] itm_while_step [OF False v l]
              t d
            using Inr by (simp add: ih)
        qed
      qed
    qed
  qed
qed

subsection \<open>The cache is left alone\<close>

lemma check_datasize_cache:
  "check_datasize st len = Some st' \<Longrightarrow> itm_cache st' = itm_cache st"
  by (auto simp: check_datasize_def split: if_splits)

lemma chan_switch_cache:
  "chan_switch env ts st chan buffer h = Inr st' \<Longrightarrow> itm_cache st' = itm_cache st"
  by (auto simp: chan_switch_def dest: tracestring_add_cache split: if_splits)

lemma itm_while_cache:
  "itm_while env ts st chan buffer pktdata = Inr (LoopEnd s c b) \<Longrightarrow> itm_cache s = itm_cache st"
proof (induction "length pktdata" arbitrary: pktdata st chan buffer rule: less_induct)
  case less
  show ?case
  proof (cases pktdata)
    case Nil
    then show ?thesis using less.prems by (simp add: itm_while_Nil)
  next
    case (Cons h rest)
    show ?thesis
    proof (cases "h = 0x17")
      case True
      have "itm_while env ts st chan buffer (drop 4 rest) = Inr (LoopEnd s c b)"
        using less.prems True by (simp add: Cons itm_while_pc)
      then show ?thesis by (rule less.hyps [rotated]) (simp add: Cons)
    next
      case False
      note npc = False
      show ?thesis
      proof (cases "ITM_VALIDHDR h")
        case False
        then show ?thesis using less.prems npc by (simp add: Cons itm_while_invalid)
      next
        case True
        note v = True
        show ?thesis
        proof (cases "chan_switch env ts st chan buffer h")
          case (Inl f)
          then show ?thesis
            using less.prems
            by (cases "length rest < ITM_LENGTH h")
               (simp_all add: Cons itm_while_cut [OF npc v] itm_while_step [OF npc v])
        next
          case (Inr st1)
          have c1: "itm_cache st1 = itm_cache st" using Inr by (rule chan_switch_cache)
          show ?thesis
          proof (cases "length rest < ITM_LENGTH h")
            case True
            then show ?thesis
              using less.prems Inr by (simp add: Cons itm_while_cut [OF npc v])
          next
            case False
            then have l: "ITM_LENGTH h \<le> length rest" by simp
            show ?thesis
            proof (cases "check_datasize st1 (ITM_LENGTH h)")
              case None
              then show ?thesis
                using less.prems Inr by (simp add: Cons itm_while_step [OF npc v l])
            next
              case (Some st2)
              have c2: "itm_cache st2 = itm_cache st1" using Some by (rule check_datasize_cache)
              have "itm_while env ts st2 (ITM_CHANNEL h)
                      ((if chan \<noteq> ITM_CHANNEL h then [] else buffer) @ take (ITM_LENGTH h) rest)
                      (drop (ITM_LENGTH h) rest) = Inr (LoopEnd s c b)"
                using less.prems Inr Some by (simp add: Cons itm_while_step [OF npc v l])
              then have "itm_cache s = itm_cache st2"
                by (rule less.hyps [rotated]) (simp add: Cons)
              then show ?thesis using c1 c2 by simp
            qed
          qed
        qed
      qed
    qed
  qed
qed

subsection \<open>The queue\<close>

lemma tracestring_process_enabled:
  assumes "tracequeue_head r < PACKET_NUM" "tracequeue_tail r < PACKET_NUM"
  shows "tracestring_process env True r st =
           Some (case decode_frames env st 0 (ring_contents r) of
                   Inl f \<Rightarrow> Inl f
                 | Inr (st', c) \<Rightarrow> Inr (c, r\<lparr>tracequeue_head := tracequeue_tail r\<rparr>, st'))"
  using assms
  by (simp add: tracestring_process_def process_loop_decode PACKET_NUM_def split: sum.splits)

lemma trace_read_init:
  assumes "\<forall>rd \<in> set reads. fst rd \<noteq> []" "length reads \<le> 127"
  shows "ring_contents (trace_read ring_init reads) = map mk_packet reads"
    and "tracequeue_head (trace_read ring_init reads) < PACKET_NUM"
    and "tracequeue_tail (trace_read ring_init reads) < PACKET_NUM"
proof -
  have h: "tracequeue_head ring_init < 128" "tracequeue_tail ring_init < 128"
    by (simp_all add: ring_init_def)
  have e: "ring_contents ring_init = []"
    by (simp add: ring_contents_def ring_count_def ring_init_def PACKET_NUM_def)
  note f = trace_read_fill [OF h assms(1)]
  show "ring_contents (trace_read ring_init reads) = map mk_packet reads"
    using f e assms(2) by simp
  show "tracequeue_head (trace_read ring_init reads) < PACKET_NUM"
    using f h by (simp add: PACKET_NUM_def)
  show "tracequeue_tail (trace_read ring_init reads) < PACKET_NUM"
    using f by (simp add: PACKET_NUM_def)
qed

text \<open>
  C5, as amended. Let the statements in front of the loop hand the bytes \<open>pre @ b # rest\<close>
  of a packet of the queue to the loop (with an empty cache these are all bytes of the
  packet, with a filled cache the bytes behind the data of the packet in the cache), let
  \<open>pre\<close> be a sequence of whole packets through which the loop runs to its end, and let
  \<open>b\<close> be neither 0x17 nor a valid header. Then the work on the packet of the queue ends
  with the CTF decoder reset and the error counter one higher (an \<^verbatim>\<open>unsigned\<close>, so modulo
  \<open>2 ^ 32\<close>), and otherwise in the state \<open>st2\<close> that the loop had reached in front of
  \<open>b\<close>. That state holds the text that was added when the channel changed. It does not
  hold the bytes \<open>buffer2\<close>, which were collected and not added yet: they are discarded
  together with \<open>rest\<close>, which is not looked at (had the packet ended in front of \<open>b\<close>,
  they would have been added). The cache is empty then, and \<^verbatim>\<open>tracestring_process\<close>
  decodes the packets of the queue that follow as it decodes them alone from that state.
\<close>

theorem invalid_header_recovery:
  assumes bad: "b \<noteq> 0x17" "\<not> ITM_VALIDHDR b"
    and start: "packet_start env st (data pkt) = Inr (StartLoop st1 chan buffer (pre @ b # rest))"
    and whole: "whole_packets pre"
    and run: "itm_while env (pkt_timestamp pkt) st1 chan buffer pre = Inr (LoopEnd st2 chan2 buffer2)"
  shows "process_packet env st pkt =
           Inr (st2\<lparr>ctf := ctf_decode_reset env (ctf st2),
                    itm_packet_errors := itm_packet_errors st2 + 1\<rparr>, 0)
       \<and> itm_cache st2 = []
       \<and> itm_loop env (pkt_timestamp pkt) st1 chan buffer pre =
           itm_flush env (pkt_timestamp pkt) st2 chan2 buffer2
       \<and> (tracequeue_head r < PACKET_NUM \<and> tracequeue_tail r < PACKET_NUM
            \<and> ring_contents r = pkt # pkts \<longrightarrow>
            tracestring_process env True r st =
              Some (case decode_frames env
                           (st2\<lparr>ctf := ctf_decode_reset env (ctf st2),
                                itm_packet_errors := itm_packet_errors st2 + 1\<rparr>) 0 pkts of
                      Inl f \<Rightarrow> Inl f
                    | Inr (st', c) \<Rightarrow> Inr (c, r\<lparr>tracequeue_head := tracequeue_tail r\<rparr>, st')))"
proof -
  let ?ts = "pkt_timestamp pkt"
  have w: "itm_while env ?ts st1 chan buffer (pre @ b # rest) = Inr (LoopSkip (itm_skip env st2))"
    unfolding itm_while_append [OF whole] run using bad by (simp add: itm_while_invalid)
  have p: "process_packet env st pkt = Inr (itm_skip env st2, 0)"
    unfolding process_packet_start start by (simp add: itm_loop_while w)
  have c: "itm_cache st2 = []"
    using itm_while_cache [OF run] packet_start_cache [OF start] by simp
  have l: "itm_loop env ?ts st1 chan buffer pre = itm_flush env ?ts st2 chan2 buffer2"
    by (simp add: itm_loop_while run)
  have q: "tracestring_process env True r st =
              Some (case decode_frames env (itm_skip env st2) 0 pkts of
                      Inl f \<Rightarrow> Inl f
                    | Inr (st', c) \<Rightarrow> Inr (c, r\<lparr>tracequeue_head := tracequeue_tail r\<rparr>, st'))"
    if "tracequeue_head r < PACKET_NUM" "tracequeue_tail r < PACKET_NUM"
      "ring_contents r = pkt # pkts"
    using that p by (simp add: tracestring_process_enabled)
  show ?thesis using p c l q unfolding itm_skip_def by blast
qed

theorem invalid_header_recovery_witness:
  "(0xFF :: byte) \<noteq> 0x17 \<and> \<not> ITM_VALIDHDR 0xFF
   \<and> packet_start env_reset (st_ctf7\<lparr>itm_cache := [0x01]\<rparr>) [0x41, 0x09, 0x42, 0xFF, 0x01, 0x43]
       = Inr (StartLoop st_ctf7 0 [0x41] ([0x09, 0x42] @ 0xFF # [0x01, 0x43]))
   \<and> whole_packets [0x09, 0x42]
   \<and> itm_while env_reset 1 st_ctf7 0 [0x41] [0x09, 0x42]
       = Inr (LoopEnd (add_plain env_reset 0 1 st_ctf7 [0x41]) 1 [0x42])
   \<and> process_packet env_reset (st_ctf7\<lparr>itm_cache := [0x01]\<rparr>)
         \<lparr>data = [0x41, 0x09, 0x42, 0xFF, 0x01, 0x43], pkt_timestamp = 1\<rparr>
       = Inr ((add_plain env_reset 0 1 st_ctf7 [0x41])
                \<lparr>ctf := \<lparr>msgstack = [], ctf_decoder = 0\<rparr>, itm_packet_errors := 1\<rparr>, 0)
   \<and> tracestring_process env_reset True
         (trace_read ring_init [([0x41, 0x09, 0x42, 0xFF, 0x01, 0x43], 1), ([0x01, 0x44], 2)])
         (st_ctf7\<lparr>itm_cache := [0x01]\<rparr>)
       = Some (case decode_frames env_reset
                      ((add_plain env_reset 0 1 st_ctf7 [0x41])
                         \<lparr>ctf := \<lparr>msgstack = [], ctf_decoder = 0\<rparr>, itm_packet_errors := 1\<rparr>)
                      0 [\<lparr>data = [0x01, 0x44], pkt_timestamp = 2\<rparr>] of
                 Inl f \<Rightarrow> Inl f
               | Inr (st', c) \<Rightarrow>
                   Inr (c, (trace_read ring_init
                              [([0x41, 0x09, 0x42, 0xFF, 0x01, 0x43], 1), ([0x01, 0x44], 2)])
                             \<lparr>tracequeue_head := 2\<rparr>, st'))
   \<and> lines_of (add_plain env_reset 0 1 st_ctf7 [0x41]) = [(0, [0x41])]
   \<and> map_option (\<lambda>s. (lines_of s, itm_packet_errors s, ctf_decoder (ctf s), itm_cache s))
         (decoded_state env_reset st_ctf7
            [([0x01], 1), ([0x41, 0x09, 0x42, 0xFF, 0x01, 0x43], 1), ([0x01, 0x44], 2)])
       = Some ([(0, [0x41]), (0, [0x44])], 1, 0, [])
   \<and> process_packet env_reset st_ctf7 \<lparr>data = [0xFF, 0, 0], pkt_timestamp = 1\<rparr>
       = Inr (st_ctf7\<lparr>ctf := \<lparr>msgstack = [], ctf_decoder = 0\<rparr>, itm_packet_errors := 1\<rparr>, 0)
   \<and> map_option (\<lambda>s. (lines_of s, itm_packet_errors s, ctf_decoder (ctf s), itm_cache s))
         (decoded_state env_reset st_ctf7 [([0xFF, 0, 0], 1), ([0x01, 0x48], 2)])
       = Some ([(0, [0x48])], 1, 0, [])"
proof -
  let ?st = "st_ctf7\<lparr>itm_cache := [0x01]\<rparr>"
  let ?pkt = "\<lparr>data = [0x41, 0x09, 0x42, 0xFF, 0x01, 0x43], pkt_timestamp = 1\<rparr> :: PACKET"
  let ?st2 = "add_plain env_reset 0 1 st_ctf7 [0x41]"
  let ?pkt' = "\<lparr>data = [0xFF, 0, 0], pkt_timestamp = 1\<rparr> :: PACKET"
  have bad: "(0xFF :: byte) \<noteq> 0x17" "\<not> ITM_VALIDHDR 0xFF" by (simp_all add: ITM_VALIDHDR_def)
  have start: "packet_start env_reset ?st (data ?pkt)
                 = Inr (StartLoop st_ctf7 0 [0x41] ([0x09, 0x42] @ 0xFF # [0x01, 0x43]))"
    by (simp add: packet_start_def st_ctf7_def check_datasize_def ITM_CHANNEL_def ITM_LENGTH_def
                  Let_def)
  have whole: "whole_packets [0x09, 0x42]"
    by (simp add: ITM_VALIDHDR_def ITM_LENGTH_def)
  have v: "(0x09 :: byte) \<noteq> 0x17" "ITM_VALIDHDR 0x09" "ITM_LENGTH 0x09 \<le> length [0x42 :: byte]"
    by (simp_all add: ITM_VALIDHDR_def ITM_LENGTH_def)
  have sw: "chan_switch env_reset 1 st_ctf7 0 [0x41] 0x09 = Inr ?st2"
    by (simp add: chan_switch_def tracestring_add_def ITM_CHANNEL_def NUM_CHANNELS_def
                  st_ctf7_def env_reset_def)
  have ds: "itm_datasize ?st2 = 1" "itm_packet_errors ?st2 = 0"
    by (simp_all add: add_plain_def foldl_plain_fields st_ctf7_def plain_defs Let_def)
  have run: "itm_while env_reset (pkt_timestamp ?pkt) st_ctf7 0 [0x41] [0x09, 0x42]
               = Inr (LoopEnd ?st2 1 [0x42])"
    by (simp add: itm_while_step [OF v] sw check_datasize_def ds ITM_LENGTH_def ITM_CHANNEL_def
                  itm_while_Nil)
  have start': "packet_start env_reset st_ctf7 (data ?pkt')
                  = Inr (StartLoop st_ctf7 (ITM_CHANNEL 0xFF) [] ([] @ 0xFF # [0, 0]))"
    by (simp add: packet_start_def st_ctf7_def)
  have run': "itm_while env_reset (pkt_timestamp ?pkt') st_ctf7 (ITM_CHANNEL 0xFF) [] []
                = Inr (LoopEnd st_ctf7 (ITM_CHANNEL 0xFF) [])"
    by (rule itm_while_Nil)
  have w0: "whole_packets []" by simp
  have e: "st_ctf7\<lparr>ctf := ctf_decode_reset env_reset (ctf st_ctf7),
                    itm_packet_errors := itm_packet_errors st_ctf7 + 1\<rparr>
             = st_ctf7\<lparr>ctf := \<lparr>msgstack = [], ctf_decoder = 0\<rparr>, itm_packet_errors := 1\<rparr>"
    by (simp add: st_ctf7_def env_reset_def)
  have e2: "?st2\<lparr>ctf := ctf_decode_reset env_reset (ctf ?st2),
                   itm_packet_errors := itm_packet_errors ?st2 + 1\<rparr>
             = ?st2\<lparr>ctf := \<lparr>msgstack = [], ctf_decoder = 0\<rparr>, itm_packet_errors := 1\<rparr>"
    unfolding ds by (simp add: env_reset_def)
  have l: "lines_of ?st2 = [(0, [0x41])]" by code_simp
  have d1: "map_option (\<lambda>s. (lines_of s, itm_packet_errors s, ctf_decoder (ctf s), itm_cache s))
         (decoded_state env_reset st_ctf7
            [([0x01], 1), ([0x41, 0x09, 0x42, 0xFF, 0x01, 0x43], 1), ([0x01, 0x44], 2)])
       = Some ([(0, [0x41]), (0, [0x44])], 1, 0, [])"
    by code_simp
  have d2: "map_option (\<lambda>s. (lines_of s, itm_packet_errors s, ctf_decoder (ctf s), itm_cache s))
         (decoded_state env_reset st_ctf7 [([0xFF, 0, 0], 1), ([0x01, 0x48], 2)])
       = Some ([(0, [0x48])], 1, 0, [])"
    by code_simp
  have p1: "process_packet env_reset ?st ?pkt
              = Inr (?st2\<lparr>ctf := \<lparr>msgstack = [], ctf_decoder = 0\<rparr>, itm_packet_errors := 1\<rparr>, 0)"
    using invalid_header_recovery [OF bad start whole run] unfolding e2 by blast
  let ?r = "trace_read ring_init [([0x41, 0x09, 0x42, 0xFF, 0x01, 0x43], 1), ([0x01, 0x44], 2)]"
  have rd: "\<forall>rd \<in> set [([0x41, 0x09, 0x42, 0xFF, 0x01, 0x43 :: byte], 1 :: real), ([0x01, 0x44], 2)].
              fst rd \<noteq> []"
    "length [([0x41, 0x09, 0x42, 0xFF, 0x01, 0x43 :: byte], 1 :: real), ([0x01, 0x44], 2)] \<le> 127"
    by simp_all
  have rc: "ring_contents ?r = ?pkt # [\<lparr>data = [0x01, 0x44], pkt_timestamp = 2\<rparr>]"
    using trace_read_init(1) [OF rd] by (simp add: mk_packet_def)
  have rt: "tracequeue_tail ?r = 2"
    by (simp add: ring_init_def trace_enqueue_def PACKET_NUM_def Let_def)
  have q1: "tracestring_process env_reset True ?r ?st
       = Some (case decode_frames env_reset
                      (?st2\<lparr>ctf := \<lparr>msgstack = [], ctf_decoder = 0\<rparr>, itm_packet_errors := 1\<rparr>)
                      0 [\<lparr>data = [0x01, 0x44], pkt_timestamp = 2\<rparr>] of
                 Inl f \<Rightarrow> Inl f
               | Inr (st', c) \<Rightarrow> Inr (c, ?r\<lparr>tracequeue_head := 2\<rparr>, st'))"
    using invalid_header_recovery [OF bad start whole run, of ?r] trace_read_init(2,3) [OF rd] rc
    unfolding e2 rt by blast
  have p2: "process_packet env_reset st_ctf7 ?pkt'
              = Inr (st_ctf7\<lparr>ctf := \<lparr>msgstack = [], ctf_decoder = 0\<rparr>, itm_packet_errors := 1\<rparr>, 0)"
    using invalid_header_recovery [OF bad start' w0 run'] unfolding e by blast
  show ?thesis
    using bad start whole run p1 q1 p2 l d1 d2 by simp
qed

text \<open>
  The claim as stated fails: more than the remainder of the frame is discarded. In the
  frame 01 41 FF 01 42 the byte FF follows a whole packet with the text 41 for channel 0.
  The frame leaves no trace line, although the frame 01 41 alone leaves the line 41. The
  bytes that were carried over from the frame before are lost as well: of the frames
  03 41 42 43 and 44 FF (with automatic adjustment of the data size) no trace line is
  left, although the frames 03 41 42 43 and 44 leave the line 41 42 43 44.
\<close>

theorem invalid_header_counterexample:
  "map_option (\<lambda>s. (lines_of s, itm_packet_errors s))
     (decoded_state env0 st0 [([0x01, 0x41, 0xFF, 0x01, 0x42], 1)]) = Some ([], 1)
   \<and> decoded_lines env0 st0 [([0x01, 0x41], 1)] = Some [(0, [0x41])]
   \<and> map_option (\<lambda>s. (lines_of s, itm_packet_errors s))
         (decoded_state env0 (st0\<lparr>itm_datasz_auto := True\<rparr>)
            [([0x03, 0x41, 0x42, 0x43], 1), ([0x44, 0xFF], 1)]) = Some ([], 1)
   \<and> decoded_lines env0 (st0\<lparr>itm_datasz_auto := True\<rparr>)
         [([0x03, 0x41, 0x42, 0x43], 1), ([0x44], 1)] = Some [(0, [0x41, 0x42, 0x43, 0x44])]"
  by code_simp

section \<open>The cache for packets that cross the border of two frames\<close>

subsection \<open>States that differ in time stamps only\<close>













lemma same_but_time_cache_upd:
  "same_but_time T ts a b \<Longrightarrow> same_but_time T ts (a\<lparr>itm_cache := c\<rparr>) (b\<lparr>itm_cache := c\<rparr>)"
  by (simp add: same_but_time_def)



subsection \<open>Adding text with and without the zero bytes at its end\<close>


lemma emit_Nil [simp]: "emit env ts st chan [] = st"
  by (simp add: emit_def)




lemma emit_strip_Nil [simp]: "emit_strip env ts st chan [] = st"
  by (simp add: emit_strip_def add_plain_def)


lemma strip_append:
  assumes "pre = [] \<or> last pre \<noteq> 0"
  shows "take (strip_length (pre @ x) (length (pre @ x))) (pre @ x)
           = pre @ take (strip_length x (length x)) x"
proof (cases "pre = []")
  case True
  then show ?thesis by simp
next
  case False
  then have "hd (rev pre) \<noteq> 0" using assms by (simp add: hd_rev)
  then have d: "dropWhile (\<lambda>b. b = 0) (rev pre) = rev pre"
    using False by (cases "rev pre") simp_all
  have "rev (dropWhile (\<lambda>b. b = 0) (rev (pre @ x))) = pre @ rev (dropWhile (\<lambda>b. b = 0) (rev x))"
    by (simp add: dropWhile_append d)
  then show ?thesis
    using strip_length_dropWhile [of "length (pre @ x)" "pre @ x"]
      strip_length_dropWhile [of "length x" x]
    by simp
qed

lemma emit_strip_emit:
  "x = [] \<or> last x \<noteq> 0 \<Longrightarrow> emit_strip env ts st chan x = emit env ts st chan x"
  using strip_append [of x "[]"] by (simp add: emit_strip_def emit_def add_plain_def)






lemma accepted_size_cache_upd [simp]: "accepted_size (st\<lparr>itm_cache := x\<rparr>) = accepted_size st"
  by (simp add: accepted_size_def)





subsection \<open>The reference decoder\<close>










subsection \<open>The loop over a packet and the reference decoder\<close>


subsection \<open>One packet of the queue, and what the cache hands on\<close>




subsection \<open>Frames with different time stamps\<close>







subsection \<open>A sequence of frames\<close>


subsection \<open>From the reader to the decoder\<close>








text \<open>
  What the conditions of the theorem keep out, each with a stream in frames and in a
  single frame: frames that are 0.2 seconds apart give two lines instead of one; behind
  an invalid header, and behind a packet with more data than the decoder accepts, the
  rest of the frame is discarded, so that the frames decide what is lost; a PC sample
  packet that the end of a frame cuts short is not carried over, and its rest is taken
  for packets; for a packet that is spread over three frames the decoder copies bytes
  behind those that the second frame holds, which is a fault in this model.
\<close>

lemma carry_conditions_needed:
  "decoded_lines env0 st0 [([0x01, 0x41], 1), ([0x01, 0x42], 1.2)] = Some [(0, [0x41]), (0, [0x42])]
   \<and> decoded_lines env0 st0 [([0x01, 0x41, 0x01, 0x42], 1)] = Some [(0, [0x41, 0x42])]
   \<and> decoded_lines env0 st0 [([0x01, 0x41], 1), ([0xFF], 1)] = Some [(0, [0x41])]
   \<and> decoded_lines env0 st0 [([0x01, 0x41, 0xFF], 1)] = Some []
   \<and> decoded_lines env0 st0 [([0x01, 0x41], 1), ([0x02, 0x42, 0x43], 1)] = Some [(0, [0x41])]
   \<and> decoded_lines env0 st0 [([0x01, 0x41, 0x02, 0x42, 0x43], 1)] = Some []
   \<and> decoded_lines env0 st0 [([0x01, 0x41, 0x17, 1, 2], 1), ([3, 4, 0x01, 0x42], 1)] = Some [(0, [0x41])]
   \<and> decoded_lines env0 st0 [([0x01, 0x41, 0x17, 1, 2, 3, 4, 0x01, 0x42], 1)] = Some [(0, [0x41, 0x42])]
   \<and> decoded_lines env0 (st0\<lparr>itm_datasz_auto := True\<rparr>)
         [([0x03, 0x41], 1), ([0x42], 1), ([0x43, 0x44], 1)] = None
   \<and> decoded_lines env0 (st0\<lparr>itm_datasz_auto := True\<rparr>)
         [([0x03, 0x41, 0x42, 0x43, 0x44], 1)] = Some [(0, [0x41, 0x42, 0x43, 0x44])]"
  by code_simp

section \<open>The configuration of the timeline\<close>

text \<open>
  C10. \<^verbatim>\<open>timeline_setconfig\<close> stores the three arguments when \<open>spacing > 10\<close>,
  \<open>scale > 0\<close> and \<open>1 \<le> delta \<le> 100\<close>, and leaves the configuration as it is
  otherwise. The scale is only tested for being positive.
\<close>

theorem timeline_setconfig_guard:
  "timeline_setconfig cfg spacing scale delta =
     (if spacing > 10 \<and> scale > 0 \<and> 1 \<le> delta \<and> delta \<le> 100
      then \<lparr>mark_spacing = spacing, mark_scale = scale, mark_deltatime = delta\<rparr>
      else cfg)"
  by (simp add: timeline_setconfig_def) 

theorem timeline_setconfig_guard_witness:
  "timeline_setconfig \<lparr>mark_spacing = 100, mark_scale = 1000000, mark_deltatime = 1\<rparr> 20 7 5
     = \<lparr>mark_spacing = 20, mark_scale = 7, mark_deltatime = 5\<rparr>
   \<and> timeline_setconfig \<lparr>mark_spacing = 100, mark_scale = 1000000, mark_deltatime = 1\<rparr> 10 1000 5
     = \<lparr>mark_spacing = 100, mark_scale = 1000000, mark_deltatime = 1\<rparr>"
  using timeline_setconfig_guard [of "\<lparr>mark_spacing = 100, mark_scale = 1000000, mark_deltatime = 1\<rparr>" 20 7 5]
    timeline_setconfig_guard [of "\<lparr>mark_spacing = 100, mark_scale = 1000000, mark_deltatime = 1\<rparr>" 10 1000 5]
  by simp

lemma zoom_in_plain:
  assumes "mark_spacing cfg * 3 \<le> 1400 \<or> (mark_deltatime cfg = 1 \<and> mark_scale cfg = 1)"
    and "1 \<le> mark_deltatime cfg" "1 \<le> mark_scale cfg"
  shows "zoom_in cfg = cfg\<lparr>mark_spacing := mark_spacing cfg * 1.5\<rparr>"
  using assms by (auto simp: zoom_in_def Let_def)

lemma zoom_in_delta:
  assumes "mark_spacing cfg * 3 > 1400" "10 \<le> mark_deltatime cfg"
  shows "zoom_in cfg = cfg\<lparr>mark_spacing := mark_spacing cfg * 1.5 / 10,
                             mark_deltatime := mark_deltatime cfg div 10\<rparr>"
proof -
  have "mark_deltatime cfg div 10 \<noteq> 0" using assms(2) by simp
  then show ?thesis using assms by (simp add: zoom_in_def Let_def)
qed

lemma zoom_in_scale:
  assumes "mark_spacing cfg * 3 > 1400" "mark_deltatime cfg = 1" "1000 \<le> mark_scale cfg"
  shows "zoom_in cfg = cfg\<lparr>mark_spacing := mark_spacing cfg * 1.5 / 10,
                             mark_scale := mark_scale cfg div 1000, mark_deltatime := 100\<rparr>"
  using assms by (simp add: zoom_in_def Let_def)

text \<open>
  C3, as amended. For a permitted configuration with \<open>70 \<le> mark_spacing < 700\<close>, and
  with \<open>1.5 * mark_spacing \<le> 700\<close> or \<open>mark_deltatime\<close> equal to 1 or a multiple of 10,
  zooming in and then out gives back the same spacing, scale and delta (with the spacing
  computed in exact arithmetic), which is within 1 percent in particular.
\<close>

theorem zoom_roundtrip_exact:
  assumes p: "permitted_cfg cfg"
    and lo: "70 \<le> mark_spacing cfg" and hi: "mark_spacing cfg < 700"
    and d: "mark_spacing cfg * 3 \<le> 1400 \<or> mark_deltatime cfg = 1 \<or> 10 dvd mark_deltatime cfg"
  shows "zoom_out (zoom_in cfg) = cfg \<and> cfg_within_1pct (zoom_out (zoom_in cfg)) cfg"
proof -
  have sc: "mark_scale cfg \<in> {1, 1000, 1000000, 60000000}"
    and d1: "1 \<le> mark_deltatime cfg" and d100: "mark_deltatime cfg \<le> 100"
    using p by (simp_all add: permitted_cfg_def)
  have s1: "1 \<le> mark_scale cfg" using sc by auto
  consider (plain) "mark_spacing cfg * 3 \<le> 1400 \<or> (mark_deltatime cfg = 1 \<and> mark_scale cfg = 1)"
    | (scale) "mark_spacing cfg * 3 > 1400" "mark_deltatime cfg = 1" "1000 \<le> mark_scale cfg"
    | (delta) "mark_spacing cfg * 3 > 1400" "10 \<le> mark_deltatime cfg" "10 dvd mark_deltatime cfg"
    using d d1 sc by (cases "mark_spacing cfg * 3 \<le> 1400") (auto elim: dvdE)
  then have "zoom_out (zoom_in cfg) = cfg"
  proof cases
    case plain
    show ?thesis
      unfolding zoom_in_plain [OF plain d1 s1]
      using lo by (simp add: zoom_out_def Let_def)
  next
    case scale
    have m: "mark_scale cfg div 1000 * 1000 = mark_scale cfg" "mark_scale cfg div 1000 < MARK_SECOND"
      using sc scale(3) by (auto simp: MARK_SECOND_def)
    show ?thesis
      unfolding zoom_in_scale [OF scale]
      using lo hi scale m by (simp add: zoom_out_def Let_def)
  next
    case delta
    have m: "mark_deltatime cfg div 10 * 10 = mark_deltatime cfg" "mark_deltatime cfg div 10 * 10 < 1000"
      using delta(3) d100 by auto
    show ?thesis
      unfolding zoom_in_delta [OF delta(1,2)]
      using lo hi delta m by (simp add: zoom_out_def Let_def)
  qed
  then show ?thesis by (simp add: cfg_within_1pct_def within_1pct_def)
qed

theorem zoom_roundtrip_exact_witness:
  "permitted_cfg \<lparr>mark_spacing = 500, mark_scale = 1000000, mark_deltatime = 1\<rparr>
   \<and> zoom_in \<lparr>mark_spacing = 500, mark_scale = 1000000, mark_deltatime = 1\<rparr>
       = \<lparr>mark_spacing = 75, mark_scale = 1000, mark_deltatime = 100\<rparr>
   \<and> zoom_out (zoom_in \<lparr>mark_spacing = 500, mark_scale = 1000000, mark_deltatime = 1\<rparr>)
       = \<lparr>mark_spacing = 500, mark_scale = 1000000, mark_deltatime = 1\<rparr>"
proof -
  let ?c = "\<lparr>mark_spacing = 500, mark_scale = 1000000, mark_deltatime = 1\<rparr>"
  have p: "permitted_cfg ?c" by (simp add: permitted_cfg_def)
  have z: "zoom_in ?c = \<lparr>mark_spacing = 75, mark_scale = 1000, mark_deltatime = 100\<rparr>"
    by (simp add: zoom_in_def Let_def)
  have "zoom_out (zoom_in ?c) = ?c \<and> cfg_within_1pct (zoom_out (zoom_in ?c)) ?c"
    by (rule zoom_roundtrip_exact [OF p]) simp_all
  then show ?thesis using p z by simp
qed

text \<open>
  The claim as stated fails below a spacing of 70: zooming out multiplies spacing and
  delta by 10.
\<close>

theorem zoom_roundtrip_counterexample:
  "permitted_cfg \<lparr>mark_spacing = 50, mark_scale = 1000000, mark_deltatime = 1\<rparr>
   \<and> zoom_out (zoom_in \<lparr>mark_spacing = 50, mark_scale = 1000000, mark_deltatime = 1\<rparr>)
       = \<lparr>mark_spacing = 500, mark_scale = 1000000, mark_deltatime = 10\<rparr>
   \<and> \<not> cfg_within_1pct
         (zoom_out (zoom_in \<lparr>mark_spacing = 50, mark_scale = 1000000, mark_deltatime = 1\<rparr>))
         \<lparr>mark_spacing = 50, mark_scale = 1000000, mark_deltatime = 1\<rparr>"
  by (simp add: permitted_cfg_def cfg_within_1pct_def within_1pct_def zoom_in_def zoom_out_def
      Let_def MARK_SECOND_def)

end
